theory Spec2Isabelle
  imports Complex_Main "HOL-Library.Sublist" "HOL-Library.AList"
begin

section \<open>Text: characters and the string operations of the parser\<close>

text \<open>
  The parser of \<^verbatim>\<open>scofield_parser.py\<close> works on Python \<^verbatim>\<open>str\<close> values. A text is
  modelled as a \<^typ>\<open>string\<close> whose characters are the code points 0..255 (the Latin-1
  range); \<^term>\<open>length\<close> counts code points, as Python's \<^verbatim>\<open>len\<close> does. The character
  classes below are those of Python's \<^verbatim>\<open>re\<close> module and of \<^verbatim>\<open>str\<close> on that range.
\<close>

definition code :: "char \<Rightarrow> nat" where
  "code c = of_char c"

text \<open>\<^verbatim>\<open>\s\<close> and \<^verbatim>\<open>str.isspace\<close>: TAB..CR, FS..US, space, NEL, NBSP.\<close>

definition is_space :: "char \<Rightarrow> bool" where
  "is_space c = (let n = code c in (9 \<le> n \<and> n \<le> 13) \<or> (28 \<le> n \<and> n \<le> 32) \<or> n = 133 \<or> n = 160)"

text \<open>\<^verbatim>\<open>\d\<close>: the decimal digits.\<close>

definition is_digit :: "char \<Rightarrow> bool" where
  "is_digit c = (let n = code c in 48 \<le> n \<and> n \<le> 57)"

text \<open>\<^verbatim>\<open>[A-Z]\<close> and \<^verbatim>\<open>[a-z]\<close> under \<^verbatim>\<open>re.IGNORECASE\<close>: the ASCII letters of either case.\<close>

definition is_alpha :: "char \<Rightarrow> bool" where
  "is_alpha c = (let n = code c in (65 \<le> n \<and> n \<le> 90) \<or> (97 \<le> n \<and> n \<le> 122))"

text \<open>\<^verbatim>\<open>[1-3]\<close>.\<close>

definition is_123 :: "char \<Rightarrow> bool" where
  "is_123 c = (let n = code c in 49 \<le> n \<and> n \<le> 51)"

text \<open>\<^verbatim>\<open>\w\<close>: letters, digits, the underscore, and the alphanumeric code points above 127.\<close>

definition is_word :: "char \<Rightarrow> bool" where
  "is_word c = (let n = code c in
     (48 \<le> n \<and> n \<le> 57) \<or> (65 \<le> n \<and> n \<le> 90) \<or> n = 95 \<or> (97 \<le> n \<and> n \<le> 122) \<or>
     n = 170 \<or> n = 178 \<or> n = 179 \<or> n = 181 \<or> n = 185 \<or> n = 186 \<or> (188 \<le> n \<and> n \<le> 190) \<or>
     (192 \<le> n \<and> n \<le> 214) \<or> (216 \<le> n \<and> n \<le> 246) \<or> (248 \<le> n \<and> n \<le> 255))"

text \<open>The cased characters (\<^verbatim>\<open>str.title\<close> looks at whether the previous one is cased).\<close>

definition is_cased :: "char \<Rightarrow> bool" where
  "is_cased c = (let n = code c in
     (65 \<le> n \<and> n \<le> 90) \<or> (97 \<le> n \<and> n \<le> 122) \<or> n = 170 \<or> n = 181 \<or> n = 186 \<or>
     (192 \<le> n \<and> n \<le> 214) \<or> (216 \<le> n \<and> n \<le> 246) \<or> (248 \<le> n \<and> n \<le> 255))"

text \<open>\<^verbatim>\<open>str.lower\<close>, one character: A..Z and the upper-case letters 192..222 (not 215).\<close>

definition lower_char :: "char \<Rightarrow> char" where
  "lower_char c = (let n = code c in
     if (65 \<le> n \<and> n \<le> 90) \<or> (192 \<le> n \<and> n \<le> 222 \<and> n \<noteq> 215) then char_of (n + 32) else c)"

definition str_lower :: "string \<Rightarrow> string" where
  "str_lower s = map lower_char s"

text \<open>
  The title-case form of a character of the range is its upper-case form, with three
  exceptions that leave the range: the micro sign (181) becomes the Greek capital mu
  (U+039C), the sharp s (223) becomes the two letters Ss, and y with diaeresis (255) becomes
  its capital (U+0178). A title-cased text is therefore a text over a wider alphabet: the
  characters of the range and the code points that title-casing and lower-casing reach
  from them. \<open>wide\<close> reads a text of the range as a text over that alphabet.
\<close>

datatype uchar = Latin1 char | Capital_Mu | Small_Mu | Capital_Y_Diaeresis

type_synonym ustring = "uchar list"

definition wide :: "string \<Rightarrow> ustring" where
  "wide s = map Latin1 s"

definition title_char :: "char \<Rightarrow> ustring" where
  "title_char c = (let n = code c in
     if (97 \<le> n \<and> n \<le> 122) \<or> (224 \<le> n \<and> n \<le> 254 \<and> n \<noteq> 247) then [Latin1 (char_of (n - 32))]
     else if n = 181 then [Capital_Mu]
     else if n = 223 then [Latin1 CHR ''S'', Latin1 CHR ''s'']
     else if n = 255 then [Capital_Y_Diaeresis]
     else [Latin1 c])"

text \<open>
  \<^verbatim>\<open>str.lower\<close> on a title-cased text: the lower-case form of U+039C is the Greek small
  mu (U+03BC, not the micro sign), that of U+0178 is y with diaeresis.
\<close>

fun ulower_char :: "uchar \<Rightarrow> uchar" where
  "ulower_char (Latin1 c) = Latin1 (lower_char c)"
| "ulower_char Capital_Mu = Small_Mu"
| "ulower_char Small_Mu = Small_Mu"
| "ulower_char Capital_Y_Diaeresis = Latin1 (CHR 0xFF)"

definition ustr_lower :: "ustring \<Rightarrow> ustring" where
  "ustr_lower s = map ulower_char s"

text \<open>
  \<^verbatim>\<open>str.title\<close>: a character that follows a cased character is lower-cased, any other
  character is title-cased.
\<close>

fun title_from :: "bool \<Rightarrow> string \<Rightarrow> ustring" where
  "title_from prev [] = []"
| "title_from prev (c # cs) =
     (if prev then [Latin1 (lower_char c)] else title_char c) @ title_from (is_cased c) cs"

definition title :: "string \<Rightarrow> ustring" where
  "title s = title_from False s"

text \<open>\<^verbatim>\<open>str.strip()\<close>: white space removed from both ends.\<close>

definition strip :: "string \<Rightarrow> string" where
  "strip s = rev (dropWhile is_space (rev (dropWhile is_space s)))"

text \<open>\<^verbatim>\<open>str.split(sep)\<close> for a one-character separator: empty fields are kept.\<close>

fun split_char :: "char \<Rightarrow> string \<Rightarrow> string list" where
  "split_char sep [] = [[]]"
| "split_char sep (x # xs) =
     (if x = sep then [] # split_char sep xs
      else (case split_char sep xs of [] \<Rightarrow> [[x]] | w # ws \<Rightarrow> (x # w) # ws))"

text \<open>
  \<^verbatim>\<open>re.split(r'[;,]+', s)\<close>: the text is cut at every maximal run of separator
  characters; a run at either end leaves an empty piece there.
\<close>

definition is_sep :: "char \<Rightarrow> bool" where
  "is_sep c = (c = CHR '';'' \<or> c = CHR '','')"

function split_runs :: "(char \<Rightarrow> bool) \<Rightarrow> string \<Rightarrow> string list" where
  "split_runs p [] = [[]]"
| "split_runs p (x # xs) =
     (if p x then [] # split_runs p (dropWhile p xs)
      else (case split_runs p xs of [] \<Rightarrow> [[x]] | w # ws \<Rightarrow> (x # w) # ws))"
  by pat_completeness auto
termination
  by (relation "measure (\<lambda>(p, s). length s)") (auto simp: length_dropWhile_le less_Suc_eq_le)

text \<open>
  Decimal numerals: \<^verbatim>\<open>str(n)\<close>, the zero-padded \<^verbatim>\<open>f"{n:0wd}"\<close>, and \<^verbatim>\<open>int(s)\<close>.
  Python's integers are unbounded; verse numbers are \<^typ>\<open>int\<close>, the three id counters
  (which start at 1 and are only ever incremented) are \<^typ>\<open>nat\<close>. \<open>str_int\<close> is
  the decimal numeral of an integer, which is what \<^verbatim>\<open>str\<close> returns for an integer of at
  most 4300 digits; the integers that the parser prints lie between two values of
  \<^verbatim>\<open>int\<close>, which are of that size.
\<close>

definition digit_char :: "nat \<Rightarrow> char" where
  "digit_char d = char_of (48 + d)"

fun str_nat :: "nat \<Rightarrow> string" where
  "str_nat n = (if n < 10 then [digit_char n] else str_nat (n div 10) @ [digit_char (n mod 10)])"

declare str_nat.simps [simp del]

definition str_int :: "int \<Rightarrow> string" where
  "str_int i = (if i < 0 then CHR ''-'' # str_nat (nat (- i)) else str_nat (nat i))"

definition zero_pad :: "nat \<Rightarrow> nat \<Rightarrow> string" where
  "zero_pad w n = replicate (w - length (str_nat n)) CHR ''0'' @ str_nat n"

definition digits_value :: "string \<Rightarrow> nat" where
  "digits_value s = foldl (\<lambda>a c. 10 * a + (code c - 48)) 0 s"

datatype py_error = AttributeError | TypeError | ValueError

text \<open>
  \<^verbatim>\<open>int(x)\<close> for the value of a regex group: \<^verbatim>\<open>None\<close> raises TypeError. A text
  is stripped of the white space of \<^verbatim>\<open>int\<close> (TAB..CR, space, NEL, NBSP; not FS..US), may
  carry one sign, and is then a run of digits in which single underscores may separate
  digits; anything else raises ValueError. So does a numeral of more than
  \<^verbatim>\<open>sys.get_int_max_str_digits()\<close> digits (leading zeros counted, underscores not): the
  parser leaves that limit at its default, 4300.
\<close>

definition is_int_space :: "char \<Rightarrow> bool" where
  "is_int_space c = (let n = code c in (9 \<le> n \<and> n \<le> 13) \<or> n = 32 \<or> n = 133 \<or> n = 160)"

definition int_max_str_digits :: nat where
  "int_max_str_digits = 4300"

definition digit_groups_ok :: "string \<Rightarrow> bool" where
  "digit_groups_ok s = list_all (\<lambda>g. g \<noteq> [] \<and> list_all is_digit g) (split_char CHR ''_'' s)"

definition py_int_str :: "string \<Rightarrow> py_error + int" where
  "py_int_str s =
     (let t = rev (dropWhile is_int_space (rev (dropWhile is_int_space s)));
          neg = (t \<noteq> [] \<and> hd t = CHR ''-'');
          body = (if t \<noteq> [] \<and> (hd t = CHR ''-'' \<or> hd t = CHR ''+'') then tl t else t);
          digits = filter (\<lambda>c. c \<noteq> CHR ''_'') body
      in if digit_groups_ok body \<and> length digits \<le> int_max_str_digits
         then Inr (if neg then - int (digits_value digits) else int (digits_value digits))
         else Inl ValueError)"

definition py_int :: "string option \<Rightarrow> py_error + int" where
  "py_int x = (case x of None \<Rightarrow> Inl TypeError | Some s \<Rightarrow> py_int_str s)"

section \<open>Regular expressions with backtracking\<close>

text \<open>
  The patterns of the parser use character classes, literals, sequence, alternation, the
  greedy \<^verbatim>\<open>?\<close>, the greedy \<^verbatim>\<open>+\<close> on a character class, and capture groups. The matcher
  \<open>ms\<close> returns every way a pattern can match at the start of the input, as the list
  of (remaining input, captures) in the order in which Python's backtracking matcher tries
  them: the match that \<^verbatim>\<open>re.match\<close> reports is the head of that list.
\<close>

datatype rx =
    Eps
  | Cls "char \<Rightarrow> bool"
  | Seq rx rx
  | Alt rx rx
  | Opt rx
  | Plus "char \<Rightarrow> bool"
  | Grp nat rx

type_synonym caps = "nat \<Rightarrow> string option"

type_synonym mstate = "string \<times> caps"

text \<open>Greedy \<^verbatim>\<open>+\<close>: the longest run first, then each shorter one down to one character.\<close>

fun plus_run :: "(char \<Rightarrow> bool) \<Rightarrow> string \<Rightarrow> string list" where
  "plus_run p [] = []"
| "plus_run p (x # xs) = (if p x then plus_run p xs @ [xs] else [])"

fun ms :: "rx \<Rightarrow> mstate \<Rightarrow> mstate list" where
  "ms Eps st = [st]"
| "ms (Cls p) (s, c) = (case s of [] \<Rightarrow> [] | x # xs \<Rightarrow> if p x then [(xs, c)] else [])"
| "ms (Seq a b) st = concat (map (ms b) (ms a st))"
| "ms (Alt a b) st = ms a st @ ms b st"
| "ms (Opt a) st = ms a st @ [st]"
| "ms (Plus p) (s, c) = map (\<lambda>s'. (s', c)) (plus_run p s)"
| "ms (Grp i a) (s, c) =
     map (\<lambda>(s', c'). (s', c'(i \<mapsto> take (length s - length s') s))) (ms a (s, c))"

text \<open>\<^verbatim>\<open>re.match\<close>: the first match at the start of the text, if any.\<close>

definition re_match :: "rx \<Rightarrow> string \<Rightarrow> mstate option" where
  "re_match r s = (case ms r (s, Map.empty) of [] \<Rightarrow> None | st # _ \<Rightarrow> Some st)"

text \<open>
  \<^verbatim>\<open>pattern.findall\<close> for a pattern with one group: the text is scanned from left to
  right; where the pattern matches, the text of group 1 is reported (the empty text if the
  group took no part) and the scan goes on behind the match; elsewhere it moves on by one
  character.
\<close>

function findall :: "rx \<Rightarrow> string \<Rightarrow> string list" where
  "findall r s =
     (case re_match r s of
        None \<Rightarrow> (case s of [] \<Rightarrow> [] | _ # t \<Rightarrow> findall r t)
      | Some (rest, c) \<Rightarrow>
          (case c 1 of None \<Rightarrow> [] | Some g \<Rightarrow> g) #
          (if length rest < length s then findall r rest
           else (case s of [] \<Rightarrow> [] | _ # t \<Rightarrow> findall r t)))"
  by pat_completeness auto
termination
  by (relation "measure (\<lambda>(r, s). length s)") auto

declare findall.simps [simp del]

text \<open>A literal character under \<^verbatim>\<open>re.IGNORECASE\<close>, a literal word, a sequence.\<close>

definition chr_i :: "char \<Rightarrow> rx" where
  "chr_i c = Cls (\<lambda>x. lower_char x = lower_char c)"

definition lit_i :: "string \<Rightarrow> rx" where
  "lit_i s = foldr (\<lambda>c r. Seq (chr_i c) r) s Eps"

definition seqs :: "rx list \<Rightarrow> rx" where
  "seqs rs = foldr Seq rs Eps"

text \<open>The book token \<^verbatim>\<open>[1-3]?\s?[A-Z][a-z]+\<close> (case-insensitive).\<close>

definition book_rx :: rx where
  "book_rx = seqs [Opt (Cls is_123), Opt (Cls is_space), Cls is_alpha, Plus is_alpha]"

text \<open>
  The pattern of \<^verbatim>\<open>_parse_verse_reference\<close>:
  \<^verbatim>\<open>([1-3]?\s?[A-Z][a-z]+)\.?\s+(\d+):(\d+)(?:-(\d+))?\<close> with \<^verbatim>\<open>re.IGNORECASE\<close>.
\<close>

definition ref_rx :: rx where
  "ref_rx = seqs [Grp 1 book_rx, Opt (chr_i CHR ''.''), Plus is_space, Grp 2 (Plus is_digit),
     chr_i CHR '':'', Grp 3 (Plus is_digit),
     Opt (Seq (chr_i CHR ''-'') (Grp 4 (Plus is_digit)))]"

text \<open>
  \<^verbatim>\<open>self.cross_ref_pattern\<close>:
  \<^verbatim>\<open>(?:See|cf\.|compare|v\.?|verse)\s+([1-3]?\s?[A-Z][a-z]+\.?\s+\d+:\d+)\<close> with
  \<^verbatim>\<open>re.IGNORECASE\<close>.
\<close>

definition cross_ref_pattern :: rx where
  "cross_ref_pattern = seqs [
     Alt (lit_i ''See'') (Alt (lit_i ''cf.'') (Alt (lit_i ''compare'')
       (Alt (Seq (chr_i CHR ''v'') (Opt (chr_i CHR ''.''))) (lit_i ''verse'')))),
     Plus is_space,
     Grp 1 (seqs [book_rx, Opt (chr_i CHR ''.''), Plus is_space, Plus is_digit,
                  chr_i CHR '':'', Plus is_digit])]"

text \<open>
  \<^verbatim>\<open>re.search(r'\b' + re.escape(lit), text)\<close>: the literal occurs in the text at a
  word boundary, that is, at a place where exactly one of the characters before and behind
  it is a word character (the ends of the text count as non-word characters).
\<close>

definition opt_word :: "char option \<Rightarrow> bool" where
  "opt_word x = (case x of None \<Rightarrow> False | Some c \<Rightarrow> is_word c)"

fun search_boundary :: "char option \<Rightarrow> string \<Rightarrow> string \<Rightarrow> bool" where
  "search_boundary prev lit [] = (opt_word prev \<and> lit = [])"
| "search_boundary prev lit (c # cs) =
     ((opt_word prev \<noteq> is_word c \<and> prefix lit (c # cs)) \<or> search_boundary (Some c) lit cs)"

section \<open>The book registry\<close>

text \<open>Python dictionaries keep insertion order; the fixed tables are association lists.\<close>

definition BIBLE_BOOKS :: "(string \<times> string) list" where
  "BIBLE_BOOKS = [
     (''GEN'', ''Genesis''), (''EXO'', ''Exodus''), (''LEV'', ''Leviticus''), (''NUM'', ''Numbers''),
     (''DEU'', ''Deuteronomy''), (''JOS'', ''Joshua''), (''JDG'', ''Judges''), (''RUT'', ''Ruth''),
     (''1SA'', ''1 Samuel''), (''2SA'', ''2 Samuel''), (''1KI'', ''1 Kings''), (''2KI'', ''2 Kings''),
     (''1CH'', ''1 Chronicles''), (''2CH'', ''2 Chronicles''), (''EZR'', ''Ezra''), (''NEH'', ''Nehemiah''),
     (''EST'', ''Esther''), (''JOB'', ''Job''), (''PSA'', ''Psalms''), (''PRO'', ''Proverbs''),
     (''ECC'', ''Ecclesiastes''), (''SON'', ''Song of Solomon''), (''ISA'', ''Isaiah''), (''JER'', ''Jeremiah''),
     (''LAM'', ''Lamentations''), (''EZE'', ''Ezekiel''), (''DAN'', ''Daniel''), (''HOS'', ''Hosea''),
     (''JOE'', ''Joel''), (''AMO'', ''Amos''), (''OBA'', ''Obadiah''), (''JON'', ''Jonah''),
     (''MIC'', ''Micah''), (''NAH'', ''Nahum''), (''HAB'', ''Habakkuk''), (''ZEP'', ''Zephaniah''),
     (''HAG'', ''Haggai''), (''ZEC'', ''Zechariah''), (''MAL'', ''Malachi''), (''MAT'', ''Matthew''),
     (''MAR'', ''Mark''), (''LUK'', ''Luke''), (''JOH'', ''John''), (''ACT'', ''Acts''),
     (''ROM'', ''Romans''), (''1CO'', ''1 Corinthians''), (''2CO'', ''2 Corinthians''), (''GAL'', ''Galatians''),
     (''EPH'', ''Ephesians''), (''PHI'', ''Philippians''), (''COL'', ''Colossians''), (''1TH'', ''1 Thessalonians''),
     (''2TH'', ''2 Thessalonians''), (''1TI'', ''1 Timothy''), (''2TI'', ''2 Timothy''), (''TIT'', ''Titus''),
     (''PHM'', ''Philemon''), (''HEB'', ''Hebrews''), (''JAM'', ''James''), (''1PE'', ''1 Peter''),
     (''2PE'', ''2 Peter''), (''1JO'', ''1 John''), (''2JO'', ''2 John''), (''3JO'', ''3 John''),
     (''JUD'', ''Jude''), (''REV'', ''Revelation'')]"

definition BOOK_CHAPTER_COUNTS :: "(string \<times> nat) list" where
  "BOOK_CHAPTER_COUNTS = [
     (''GEN'', 50), (''EXO'', 40), (''LEV'', 27), (''NUM'', 36), (''DEU'', 34),
     (''JOS'', 24), (''JDG'', 21), (''RUT'', 4), (''1SA'', 31), (''2SA'', 24),
     (''1KI'', 22), (''2KI'', 25), (''1CH'', 29), (''2CH'', 36), (''EZR'', 10),
     (''NEH'', 13), (''EST'', 10), (''JOB'', 42), (''PSA'', 150), (''PRO'', 31),
     (''ECC'', 12), (''SON'', 8), (''ISA'', 66), (''JER'', 52), (''LAM'', 5),
     (''EZE'', 48), (''DAN'', 12), (''HOS'', 14), (''JOE'', 3), (''AMO'', 9),
     (''OBA'', 1), (''JON'', 4), (''MIC'', 7), (''NAH'', 3), (''HAB'', 3),
     (''ZEP'', 3), (''HAG'', 2), (''ZEC'', 14), (''MAL'', 4), (''MAT'', 28),
     (''MAR'', 16), (''LUK'', 24), (''JOH'', 21), (''ACT'', 28), (''ROM'', 16),
     (''1CO'', 16), (''2CO'', 13), (''GAL'', 6), (''EPH'', 6), (''PHI'', 4),
     (''COL'', 4), (''1TH'', 5), (''2TH'', 3), (''1TI'', 6), (''2TI'', 4),
     (''TIT'', 3), (''PHM'', 1), (''HEB'', 13), (''JAM'', 5), (''1PE'', 5),
     (''2PE'', 3), (''1JO'', 5), (''2JO'', 1), (''3JO'', 1), (''JUD'', 1),
     (''REV'', 22)]"

definition SCOFIELD_THEMES :: "string list" where
  "SCOFIELD_THEMES = [
     ''Dispensation'', ''Covenant Theology'', ''Grace'', ''Law vs. Grace'',
     ''Prophecy'', ''Kingdom of God'', ''Church Age'', ''Israel and the Church'',
     ''Gentiles'', ''Salvation'', ''Atonement'', ''Justification'',
     ''Sanctification'', ''Glorification'', ''Eschatology'', ''Second Coming'',
     ''Millennium'', ''Great White Throne'', ''Rapture'', ''Tribulation'',
     ''Antichrist'', ''Resurrection'', ''Judgment'', ''Heaven'',
     ''Hell'', ''New Jerusalem'', ''Eternal State'', ''Creation'',
     ''Fall of Man'', ''Redemption'', ''Covenants'', ''Promise'',
     ''Faith'', ''Hope'', ''Love'', ''Sin'',
     ''Repentance'', ''Forgiveness'', ''Mercy'', ''Justice'',
     ''Holiness'', ''Righteousness'', ''Deity of Christ'', ''Humanity of Christ'',
     ''Virgin Birth'', ''Incarnation'', ''Atoning Death'', ''Resurrection'',
     ''Ascension'', ''High Priest'', ''Mediator'', ''Advocate'',
     ''King of Kings'', ''Lord of Lords'']"

text \<open>The \<^verbatim>\<open>variations\<close> table of \<^verbatim>\<open>_book_name_to_abbrev\<close>.\<close>

definition variations :: "(string \<times> string) list" where
  "variations = [
     (''Psalms'', ''PSA''), (''Psalm'', ''PSA''), (''Song of Solomon'', ''SON''),
     (''Song of Songs'', ''SON''), (''Ecclesiastes'', ''ECC''), (''Revelation'', ''REV''),
     (''Revelations'', ''REV'')]"

text \<open>
  \<^verbatim>\<open>_book_name_to_abbrev\<close>: the token is stripped and title-cased; the variations table,
  then the first registry entry whose full name equals the token (lower-cased), then the
  first whose full name contains it.
\<close>

definition book_name_to_abbrev :: "string \<Rightarrow> string option" where
  "book_name_to_abbrev book_name =
     (let bn = title (strip book_name) in
      case map_of (map (\<lambda>(name, abbrev). (wide name, abbrev)) variations) bn of
        Some abbrev \<Rightarrow> Some abbrev
      | None \<Rightarrow>
          (case find (\<lambda>(abbrev, full_name). wide (str_lower full_name) = ustr_lower bn)
                  BIBLE_BOOKS of
             Some (abbrev, full_name) \<Rightarrow> Some abbrev
           | None \<Rightarrow>
               (case find (\<lambda>(abbrev, full_name).
                             sublist (ustr_lower bn) (wide (str_lower full_name)))
                       BIBLE_BOOKS of
                  Some (abbrev, full_name) \<Rightarrow> Some abbrev
                | None \<Rightarrow> None)))"

section \<open>The reference parser\<close>

text \<open>The four groups of a match of the reference pattern, as \<^verbatim>\<open>match.groups()\<close>.\<close>

definition ref_match ::
  "string \<Rightarrow> (string option \<times> string option \<times> string option \<times> string option) option" where
  "ref_match s = map_option (\<lambda>(rest, c). (c 1, c 2, c 3, c 4)) (re_match ref_rx s)"

text \<open>A group inside an f-string: \<^verbatim>\<open>None\<close> is printed as the word None.\<close>

definition fmt_group :: "string option \<Rightarrow> string" where
  "fmt_group g = (case g of None \<Rightarrow> ''None'' | Some s \<Rightarrow> s)"

definition verse_id_of :: "string \<Rightarrow> string \<Rightarrow> int \<Rightarrow> string" where
  "verse_id_of book_abbrev chapter verse_num =
     book_abbrev @ ''.'' @ chapter @ ''.'' @ str_int verse_num"

text \<open>
  The body of the loop of \<^verbatim>\<open>_parse_verse_reference\<close> for one stripped, non-empty
  fragment: the verse ids it contributes, or the exception an operation raises.
  \<^verbatim>\<open>range(start, end + 1)\<close> is \<^term>\<open>[start..end]\<close>.
\<close>

definition parse_ref_part :: "string \<Rightarrow> py_error + string list" where
  "parse_ref_part ref_part =
     (case ref_match ref_part of
        None \<Rightarrow> Inr []
      | Some (book_name, chapter, start_verse, end_verse) \<Rightarrow>
          (case book_name of
             None \<Rightarrow> Inl AttributeError
           | Some bn \<Rightarrow>
               (case book_name_to_abbrev bn of
                  None \<Rightarrow> Inr []
                | Some book_abbrev \<Rightarrow>
                    (case py_int start_verse of
                       Inl e \<Rightarrow> Inl e
                     | Inr start \<Rightarrow>
                         (case (if end_verse = None \<or> end_verse = Some [] then Inr start
                                else py_int end_verse) of
                            Inl e \<Rightarrow> Inl e
                          | Inr end \<Rightarrow>
                              Inr (map (verse_id_of book_abbrev (fmt_group chapter))
                                     [start..end]))))))"

fun parse_ref_parts :: "string list \<Rightarrow> string list \<Rightarrow> py_error + string list" where
  "parse_ref_parts [] verse_ids = Inr verse_ids"
| "parse_ref_parts (ref_part # ref_parts) verse_ids =
     (let rp = strip ref_part in
      if rp = [] then parse_ref_parts ref_parts verse_ids
      else (case parse_ref_part rp of
              Inl e \<Rightarrow> Inl e
            | Inr ids \<Rightarrow> parse_ref_parts ref_parts (verse_ids @ ids)))"

definition parse_verse_reference :: "string \<Rightarrow> py_error + string list" where
  "parse_verse_reference ref_str = parse_ref_parts (split_runs is_sep ref_str) []"

section \<open>Theme tags\<close>

text \<open>
  \<^verbatim>\<open>_extract_themes_from_note\<close>: a theme of the taxonomy is a tag when its lower-cased name
  occurs in the lower-cased text, or when that name without its last character occurs there
  at a word boundary. \<^verbatim>\<open>theme_lower[:-1]\<close> is \<^term>\<open>butlast\<close>.
\<close>

definition theme_matches :: "string \<Rightarrow> string \<Rightarrow> bool" where
  "theme_matches note_lower theme =
     (let theme_lower = str_lower theme in
      sublist theme_lower note_lower \<or> search_boundary None (butlast theme_lower) note_lower)"

definition extract_themes_from_note :: "string \<Rightarrow> string list" where
  "extract_themes_from_note note_text = filter (theme_matches (str_lower note_text)) SCOFIELD_THEMES"

section \<open>The data model\<close>

text \<open>
  The dataclasses of the parser. Two classes may not share a field name here, so every field
  carries the initials of its class: \<open>bv\<close> (BibleVerse), \<open>sn\<close> (ScofieldNote),
  \<open>cr\<close> (CrossReference), \<open>ti\<close> (ThematicIndex), \<open>rp\<close> (ReadingPlan). The two
  \<^verbatim>\<open>float\<close> fields hold rationals: the literals \<^verbatim>\<open>0.8\<close> and \<^verbatim>\<open>1.0\<close> are the
  numbers they denote and the division by 100 is exact.
\<close>

record BibleVerse =
  bv_book :: string
  bv_chapter :: int
  bv_verse :: int
  bv_text :: string
  bv_note_ids :: "string list"
  bv_keywords :: "string list"

record ScofieldNote =
  sn_note_id :: string
  sn_text :: string
  sn_linked_verses :: "string list"
  sn_note_type :: string
  sn_category :: string
  sn_subcategory :: string
  sn_keywords :: "string list"
  sn_theme_tags :: "string list"
  sn_related_notes :: "string list"

record CrossReference =
  cr_source_id :: string
  cr_target_id :: string
  cr_ref_type :: string
  cr_description :: string
  cr_confidence :: rat
  cr_tags :: "string list"

record ThematicIndex =
  ti_theme_id :: string
  ti_name :: string
  ti_description :: string
  ti_note_ids :: "string list"
  ti_verse_ids :: "string list"
  ti_categories :: "string list"
  ti_sub_themes :: "string list"
  ti_parent_themes :: "string list"
  ti_confidence_score :: rat

record ReadingPlan =
  rp_plan_id :: string
  rp_name :: string
  rp_description :: string
  rp_days :: "string list list"
  rp_theme :: string
  rp_estimated_minutes :: nat
  rp_tags :: "string list"

text \<open>
  The tables of an \<^verbatim>\<open>EnhancedScofieldParser\<close>. A dictionary is an association list in
  insertion order; \<^term>\<open>map_of\<close> reads a key and \<^term>\<open>AList.update\<close> is the assignment
  \<^verbatim>\<open>d[k] = v\<close> (in place for a key that is present, at the end for a new one).
\<close>

record parser =
  verses :: "(string \<times> BibleVerse) list"
  "notes" :: "(string \<times> ScofieldNote) list"
  cross_refs :: "CrossReference list"
  thematic_index :: "(string \<times> ThematicIndex) list"
  reading_plans :: "(string \<times> ReadingPlan) list"
  note_counter :: nat
  theme_counter :: nat
  plan_counter :: nat

text \<open>The tables after \<^verbatim>\<open>__init__\<close>.\<close>

definition init_parser :: parser where
  "init_parser = \<lparr>verses = [], notes = [], cross_refs = [], thematic_index = [],
     reading_plans = [], note_counter = 1, theme_counter = 1, plan_counter = 1\<rparr>"

text \<open>\<^verbatim>\<open>ThematicIndex.total_references\<close>.\<close>

definition total_references :: "ThematicIndex \<Rightarrow> nat" where
  "total_references t = length (ti_note_ids t) + length (ti_verse_ids t)"

section \<open>The cross-reference extractor\<close>

text \<open>The edge that \<^verbatim>\<open>_extract_cross_refs_from_note\<close> builds for one target.\<close>

definition new_cross_ref :: "string \<Rightarrow> string \<Rightarrow> CrossReference" where
  "new_cross_ref note_id target_id =
     \<lparr>cr_source_id = note_id, cr_target_id = target_id, cr_ref_type = ''explanation'',
      cr_description = ''Referenced in note '' @ note_id, cr_confidence = 8 / 10, cr_tags = []\<rparr>"

text \<open>
  The loop over the matches of the cue pattern. An exception of the reference parser leaves
  the edges appended so far in place; it is returned beside them.
\<close>

fun cross_refs_loop ::
  "string \<Rightarrow> string list \<Rightarrow> CrossReference list \<Rightarrow> CrossReference list \<times> py_error option" where
  "cross_refs_loop note_id [] xs = (xs, None)"
| "cross_refs_loop note_id (ref_str # matches) xs =
     (case parse_verse_reference ref_str of
        Inl e \<Rightarrow> (xs, Some e)
      | Inr target_verse_ids \<Rightarrow>
          cross_refs_loop note_id matches (xs @ map (new_cross_ref note_id) target_verse_ids))"

definition extract_cross_refs_from_note ::
  "string \<Rightarrow> string \<Rightarrow> CrossReference list \<Rightarrow> CrossReference list \<times> py_error option" where
  "extract_cross_refs_from_note note_id note_text xs =
     cross_refs_loop note_id (findall cross_ref_pattern note_text) xs"

section \<open>The note builder\<close>

text \<open>
  \<^verbatim>\<open>ScofieldNote.__post_init__\<close> puts an N in front of a note id that does not start
  with one.
\<close>

definition post_init_note_id :: "string \<Rightarrow> string" where
  "post_init_note_id nid = (if prefix ''N'' nid then nid else ''N'' @ nid)"

definition new_note ::
  "string \<Rightarrow> string \<Rightarrow> string list \<Rightarrow> string \<Rightarrow> string list \<Rightarrow> string list \<Rightarrow> ScofieldNote" where
  "new_note note_id note_text verse_refs category kws tags =
     \<lparr>sn_note_id = post_init_note_id note_id, sn_text = note_text, sn_linked_verses = verse_refs,
      sn_note_type = ''explanatory'', sn_category = category, sn_subcategory = [],
      sn_keywords = kws, sn_theme_tags = tags, sn_related_notes = []\<rparr>"

text \<open>"Link note to verses": only a verse id that is a key of the verse table is touched.\<close>

definition link_note ::
  "string \<Rightarrow> (string \<times> BibleVerse) list \<Rightarrow> string \<Rightarrow> (string \<times> BibleVerse) list" where
  "link_note note_id vs verse_id =
     (case map_of vs verse_id of
        None \<Rightarrow> vs
      | Some v \<Rightarrow> AList.update verse_id (v\<lparr>bv_note_ids := bv_note_ids v @ [note_id]\<rparr>) vs)"

text \<open>
  The body of the \<^verbatim>\<open>try\<close> block of \<^verbatim>\<open>_parse_notes_tsv\<close> for the columns of one row.
  The \<^verbatim>\<open>except\<close> clause only logs, so an exception leaves the tables as they were when it
  was raised: untouched for the reference parser, with the note stored for the extractor.
\<close>

definition add_note_row :: "parser \<Rightarrow> string \<Rightarrow> string \<Rightarrow> string \<Rightarrow> string list \<Rightarrow> parser" where
  "add_note_row st ref_str note_text category kws =
     (case parse_verse_reference ref_str of
        Inl e \<Rightarrow> st
      | Inr verse_refs \<Rightarrow>
          if verse_refs = [] then st
          else
            (let note_id = ''N'' @ zero_pad 4 (note_counter st);
                 note = new_note note_id note_text verse_refs category
                          (filter (\<lambda>k. k \<noteq> []) (map strip kws))
                          (extract_themes_from_note note_text)
             in st\<lparr>notes := AList.update note_id note (notes st),
                    verses := foldl (link_note note_id) (verses st) verse_refs,
                    note_counter := note_counter st + 1,
                    cross_refs := fst (extract_cross_refs_from_note note_id note_text
                                         (cross_refs st))\<rparr>))"

text \<open>
  One line of the notes file: blank lines and lines that start with \<^verbatim>\<open>#\<close> are skipped,
  and so is a line with fewer than three tab-separated columns.
\<close>

definition parse_notes_line :: "parser \<Rightarrow> string \<Rightarrow> parser" where
  "parse_notes_line st raw_line =
     (let line = strip raw_line in
      if line = [] \<or> prefix ''#'' line then st
      else (case split_char CHR 0x09 line of
              p0 # p1 # p2 # rest \<Rightarrow>
                add_note_row st (strip p0) (strip p1) (strip p2)
                  (case rest of [] \<Rightarrow> [] | p3 # _ \<Rightarrow> split_char CHR '','' p3)
            | _ \<Rightarrow> st))"

definition parse_notes_tsv :: "parser \<Rightarrow> string list \<Rightarrow> parser" where
  "parse_notes_tsv st lines = foldl parse_notes_line st lines"

section \<open>The thematic indexer\<close>

text \<open>
  \<^verbatim>\<open>d[k].extend(xs)\<close> (and \<^verbatim>\<open>d[k].append(x)\<close>, with a one-element list) on a
  \<^verbatim>\<open>defaultdict(list)\<close>: a missing key starts from the empty list.
\<close>

definition dd_extend ::
  "(string \<times> string list) list \<Rightarrow> string \<Rightarrow> string list \<Rightarrow> (string \<times> string list) list" where
  "dd_extend d k xs = AList.update k ((case map_of d k of None \<Rightarrow> [] | Some ys \<Rightarrow> ys) @ xs) d"

text \<open>"Process notes": the two loops over the notes and their theme tags.\<close>

definition note_themes_step ::
  "(string \<times> string list) list \<times> (string \<times> string list) list \<Rightarrow> string \<times> ScofieldNote \<Rightarrow>
   (string \<times> string list) list \<times> (string \<times> string list) list" where
  "note_themes_step acc entry =
     (case entry of (note_id, note) \<Rightarrow>
        foldl (\<lambda>(theme_to_notes, theme_to_verses) theme.
                 (dd_extend theme_to_notes theme [note_id],
                  dd_extend theme_to_verses theme (sn_linked_verses note)))
          acc (sn_theme_tags note))"

text \<open>
  "Process verses": a keyword whose title-cased form is a theme name files the verse under
  that name.
\<close>

definition verse_themes_step ::
  "(string \<times> string list) list \<Rightarrow> string \<times> BibleVerse \<Rightarrow> (string \<times> string list) list" where
  "verse_themes_step theme_to_verses entry =
     (case entry of (verse_id, verse) \<Rightarrow>
        foldl (\<lambda>d keyword.
                 (case find (\<lambda>theme. wide theme = title keyword) SCOFIELD_THEMES of
                    None \<Rightarrow> d
                  | Some theme \<Rightarrow> dd_extend d theme [verse_id]))
          theme_to_verses (bv_keywords verse))"

text \<open>
  "Create thematic index entries", one theme. \<^verbatim>\<open>list(set(xs))\<close> lists the distinct
  elements of \<open>xs\<close> in an order that Python does not specify: the enumeration is the
  parameter \<open>enum\<close> of the model.
\<close>

definition add_theme ::
  "(string list \<Rightarrow> string list) \<Rightarrow> (string \<times> string list) list \<Rightarrow> parser \<Rightarrow>
   string \<times> string list \<Rightarrow> parser" where
  "add_theme enum theme_to_verses st entry =
     (case entry of (theme_name, note_ids) \<Rightarrow>
        (let theme_id = ''T'' @ zero_pad 3 (theme_counter st);
             verse_ids = enum (case map_of theme_to_verses theme_name of
                                 None \<Rightarrow> [] | Some vs \<Rightarrow> vs);
             confidence = min 1 (of_nat (length note_ids + length verse_ids) / 100);
             thematic_entry =
               \<lparr>ti_theme_id = theme_id, ti_name = theme_name,
                ti_description = ''References to '' @ theme_name @ '' in Scofield notes'',
                ti_note_ids = note_ids, ti_verse_ids = verse_ids, ti_categories = [],
                ti_sub_themes = [], ti_parent_themes = [], ti_confidence_score = confidence\<rparr>
         in st\<lparr>thematic_index := AList.update theme_id thematic_entry (thematic_index st),
                theme_counter := theme_counter st + 1\<rparr>))"

text \<open>The table \<^verbatim>\<open>theme_hierarchies\<close> of \<^verbatim>\<open>_build_theme_relationships\<close>.\<close>

definition theme_hierarchies :: "(string \<times> string list) list" where
  "theme_hierarchies = [
     (''Dispensation'', [''Law vs. Grace'', ''Church Age'', ''Millennium'']),
     (''Covenant Theology'', [''Promise'', ''Israel and the Church'']),
     (''Eschatology'', [''Second Coming'', ''Rapture'', ''Tribulation'', ''Millennium'']),
     (''Salvation'', [''Justification'', ''Sanctification'', ''Glorification'']),
     (''Christological Themes'', [''Deity of Christ'', ''Humanity of Christ'', ''Atoning Death''])]"

text \<open>The first entry of the index with a given name, as the search loops with \<^verbatim>\<open>break\<close> find it.\<close>

definition find_theme :: "string \<Rightarrow> (string \<times> ThematicIndex) list \<Rightarrow> (string \<times> ThematicIndex) option" where
  "find_theme name idx = find (\<lambda>(theme_id, t). ti_name t = name) idx"

text \<open>
  The two appends that link a child to its parent. The index holds the theme objects; the
  parent object is the one stored under \<open>parent_key\<close>, the child the one under
  \<open>theme_id\<close>: \<^verbatim>\<open>idx.parent_themes.append(parent_theme.theme_id)\<close>, then
  \<^verbatim>\<open>parent_theme.sub_themes.append(theme_id)\<close>.
\<close>

definition link_child ::
  "string \<Rightarrow> string \<Rightarrow> (string \<times> ThematicIndex) list \<Rightarrow> (string \<times> ThematicIndex) list" where
  "link_child parent_key theme_id idx =
     (case map_of idx parent_key of
        None \<Rightarrow> idx
      | Some parent_theme \<Rightarrow>
          (case map_of idx theme_id of
             None \<Rightarrow> idx
           | Some child \<Rightarrow>
               (let idx1 = AList.update theme_id
                             (child\<lparr>ti_parent_themes :=
                                      ti_parent_themes child @ [ti_theme_id parent_theme]\<rparr>) idx
                in (case map_of idx1 parent_key of
                      None \<Rightarrow> idx1
                    | Some p \<Rightarrow>
                        AList.update parent_key
                          (p\<lparr>ti_sub_themes := ti_sub_themes p @ [theme_id]\<rparr>) idx1))))"

text \<open>The loop over the index for one child name.\<close>

definition link_children_named ::
  "string \<Rightarrow> string \<Rightarrow> (string \<times> ThematicIndex) list \<Rightarrow> (string \<times> ThematicIndex) list" where
  "link_children_named parent_key child_name idx =
     foldl (\<lambda>d theme_id.
              (case map_of d theme_id of
                 None \<Rightarrow> d
               | Some t \<Rightarrow> if ti_name t = child_name then link_child parent_key theme_id d else d))
       idx (map fst idx)"

definition relate_parent ::
  "(string \<times> ThematicIndex) list \<Rightarrow> string \<times> string list \<Rightarrow> (string \<times> ThematicIndex) list" where
  "relate_parent idx entry =
     (case entry of (parent_name, child_names) \<Rightarrow>
        (case find_theme parent_name idx of
           None \<Rightarrow> idx
         | Some (parent_key, parent_theme) \<Rightarrow>
             foldl (\<lambda>d child_name. link_children_named parent_key child_name d) idx child_names))"

definition build_theme_relationships :: "parser \<Rightarrow> parser" where
  "build_theme_relationships st =
     st\<lparr>thematic_index := foldl relate_parent (thematic_index st) theme_hierarchies\<rparr>"

definition build_thematic_network :: "(string list \<Rightarrow> string list) \<Rightarrow> parser \<Rightarrow> parser" where
  "build_thematic_network enum st =
     (let (theme_to_notes, theme_to_verses0) = foldl note_themes_step ([], []) (notes st);
          theme_to_verses = foldl verse_themes_step theme_to_verses0 (verses st)
      in build_theme_relationships (foldl (add_theme enum theme_to_verses) st theme_to_notes))"

section \<open>The reading-plan generator\<close>

definition major_themes :: "string list" where
  "major_themes = [''Dispensation'', ''Covenant Theology'', ''Salvation'', ''Eschatology'']"

text \<open>"Group verses by book": only the verse ids that are keys of the verse table are kept.\<close>

definition verses_by_book ::
  "(string \<times> BibleVerse) list \<Rightarrow> string list \<Rightarrow> (string \<times> string list) list" where
  "verses_by_book vs verse_ids =
     foldl (\<lambda>d verse_id. (case map_of vs verse_id of
                             None \<Rightarrow> d
                           | Some verse \<Rightarrow> dd_extend d (bv_book verse) [verse_id]))
       [] verse_ids"

text \<open>"Create daily readings": the state of the loop is \<open>(days, current_day)\<close>.\<close>

definition day_step :: "string list list \<times> string list \<Rightarrow> string \<Rightarrow> string list list \<times> string list" where
  "day_step acc verse_id =
     (case acc of (days, current_day) \<Rightarrow>
        if length current_day \<ge> 10 then (days @ [current_day], [verse_id])
        else (days, current_day @ [verse_id]))"

definition daily_readings :: "(string \<times> string list) list \<Rightarrow> string list list" where
  "daily_readings by_book =
     (case foldl (\<lambda>acc (book, book_verses). foldl day_step acc (take 20 book_verses))
             ([], []) by_book of
        (days, current_day) \<Rightarrow> if current_day \<noteq> [] then days @ [current_day] else days)"

definition plan_for_theme :: "parser \<Rightarrow> string \<Rightarrow> parser" where
  "plan_for_theme st theme_name =
     (case find_theme theme_name (thematic_index st) of
        None \<Rightarrow> st
      | Some (theme_id, theme_entry) \<Rightarrow>
          if total_references theme_entry > 10 then
            (let plan_id = ''P'' @ zero_pad 3 (plan_counter st);
                 days = daily_readings (verses_by_book (verses st) (ti_verse_ids theme_entry))
             in if days \<noteq> [] then
                  st\<lparr>reading_plans :=
                        AList.update plan_id
                          \<lparr>rp_plan_id = plan_id, rp_name = ''Scofield Study: '' @ theme_name,
                           rp_description =
                             ''Study '' @ theme_name @ '' through key Scofield references'',
                           rp_days = days, rp_theme = theme_name,
                           rp_estimated_minutes = length days * 15,
                           rp_tags = [theme_name, ''Scofield'', ''Study'']\<rparr>
                          (reading_plans st),
                      plan_counter := plan_counter st + 1\<rparr>
                else st)
          else st)"

definition generate_reading_plans :: "parser \<Rightarrow> parser" where
  "generate_reading_plans st = foldl plan_for_theme st major_themes"

section \<open>Notions used to state the properties\<close>

text \<open>The capture groups that a pattern can set.\<close>

fun groups_of :: "rx \<Rightarrow> nat set" where
  "groups_of Eps = {}"
| "groups_of (Cls p) = {}"
| "groups_of (Seq a b) = groups_of a \<union> groups_of b"
| "groups_of (Alt a b) = groups_of a \<union> groups_of b"
| "groups_of (Opt a) = groups_of a"
| "groups_of (Plus p) = {}"
| "groups_of (Grp i a) = insert i (groups_of a)"


text \<open>
  A verse id has the shape \<^verbatim>\<open>BOOK.CHAPTER.VERSE\<close>: an abbreviation of the registry and
  two decimal numbers. A note id is the letter N and at least four digits.
\<close>

definition is_number :: "string \<Rightarrow> bool" where
  "is_number s = (s \<noteq> [] \<and> list_all is_digit s)"

definition is_verse_id :: "string \<Rightarrow> bool" where
  "is_verse_id s =
     (case split_char CHR ''.'' s of
        [b, ch, v] \<Rightarrow> b \<in> set (map fst BIBLE_BOOKS) \<and> is_number ch \<and> is_number v
      | _ \<Rightarrow> False)"

definition is_note_id :: "string \<Rightarrow> bool" where
  "is_note_id s =
     (case s of [] \<Rightarrow> False | c # ds \<Rightarrow> c = CHR ''N'' \<and> 4 \<le> length ds \<and> list_all is_digit ds)"

text \<open>
  An edge from a note to a verse, as the extractor labels it: type "explanation",
  confidence 0.8.
\<close>

definition note_to_verse_edge :: "CrossReference \<Rightarrow> bool" where
  "note_to_verse_edge x =
     (cr_confidence x = 8 / 10 \<and> cr_ref_type x = ''explanation'' \<and>
      is_note_id (cr_source_id x) \<and> is_verse_id (cr_target_id x))"

text \<open>
  A fragment of a citation that the reference parser skips: it is empty, it does not match
  the reference pattern, or its book token does not resolve.
\<close>

definition unresolved_fragment :: "string \<Rightarrow> bool" where
  "unresolved_fragment frag =
     (frag = [] \<or>
      (case ref_match frag of
         None \<Rightarrow> True
       | Some (book_name, chapter, start_verse, end_verse) \<Rightarrow>
           (case book_name of None \<Rightarrow> False | Some bn \<Rightarrow> book_name_to_abbrev bn = None)))"

text \<open>The reference string of a row of the notes file: its first column, stripped.\<close>

definition row_reference :: "string \<Rightarrow> string" where
  "row_reference raw_line =
     (case split_char CHR 0x09 (strip raw_line) of [] \<Rightarrow> [] | p0 # _ \<Rightarrow> strip p0)"

text \<open>
  A text contains a word when the word occurs in the lower-cased text with no word
  character directly before or behind it.
\<close>

fun occurs_as_word :: "char option \<Rightarrow> string \<Rightarrow> string \<Rightarrow> bool" where
  "occurs_as_word prev w [] = False"
| "occurs_as_word prev w (c # cs) =
     ((\<not> opt_word prev \<and> prefix w (c # cs) \<and>
       \<not> opt_word (case drop (length w) (c # cs) of [] \<Rightarrow> None | d # _ \<Rightarrow> Some d))
      \<or> occurs_as_word (Some c) w cs)"

definition contains_word :: "string \<Rightarrow> string \<Rightarrow> bool" where
  "contains_word w note_text = occurs_as_word None w (str_lower note_text)"

text \<open>
  The number of verse ids of a theme that are keys of the verse table, each book counted up
  to 20 times; the book of a verse is the \<^verbatim>\<open>book\<close> field of its entry in the table.
\<close>

definition stored_book :: "(string \<times> BibleVerse) list \<Rightarrow> string \<Rightarrow> string option" where
  "stored_book vs verse_id = map_option bv_book (map_of vs verse_id)"

definition capped_store_count :: "(string \<times> BibleVerse) list \<Rightarrow> string list \<Rightarrow> nat" where
  "capped_store_count vs verse_ids =
     (\<Sum>b \<in> set (List.map_filter (stored_book vs) verse_ids).
        min 20 (length (filter (\<lambda>verse_id. stored_book vs verse_id = Some b) verse_ids)))"

text \<open>
  The count in the words of the specification: the verses of the theme, each book counted
  up to 20 times, where the book of a verse id is its first component.
\<close>

definition verse_id_book :: "string \<Rightarrow> string" where
  "verse_id_book verse_id = takeWhile (\<lambda>c. c \<noteq> CHR ''.'') verse_id"

definition spec_capped_count :: "string list \<Rightarrow> nat" where
  "spec_capped_count verse_ids =
     (\<Sum>b \<in> set (map verse_id_book verse_ids).
        min 20 (length (filter (\<lambda>verse_id. verse_id_book verse_id = b) verse_ids)))"

text \<open>Every theme of an index carries the saturating score of its reference count.\<close>

definition scores_ok :: "(string \<times> ThematicIndex) list \<Rightarrow> bool" where
  "scores_ok idx =
     (\<forall>t \<in> snd ` set idx.
        ti_confidence_score t = min 1 (of_nat (total_references t) / 100))"

text \<open>
  An index is well formed when it is a dictionary (no key occurs twice) and every theme is
  stored under its own theme id.
\<close>

definition index_wf :: "(string \<times> ThematicIndex) list \<Rightarrow> bool" where
  "index_wf idx = (distinct (map fst idx) \<and> (\<forall>(k, t) \<in> set idx. ti_theme_id t = k))"

text \<open>
  A reading plan is in order with respect to a verse table and an index: no day has more
  than 10 verse ids, and the days together hold as many verse ids as the capped count of
  the plan's theme (the first theme of the index with the plan's theme name).
\<close>

definition plan_ok ::
  "(string \<times> BibleVerse) list \<Rightarrow> (string \<times> ThematicIndex) list \<Rightarrow> ReadingPlan \<Rightarrow> bool" where
  "plan_ok vs idx p =
     (list_all (\<lambda>day. length day \<le> 10) (rp_days p) \<and>
      (case find_theme (rp_theme p) idx of
         None \<Rightarrow> False
       | Some (theme_id, t) \<Rightarrow>
           sum_list (map length (rp_days p)) = capped_store_count vs (ti_verse_ids t)))"

text \<open>
  What linking the child stored under \<open>ck\<close> to the parent stored under \<open>pk\<close> does
  to the theme stored under the key \<open>k\<close>.
\<close>

definition add_link :: "string \<Rightarrow> string \<Rightarrow> string \<Rightarrow> ThematicIndex \<Rightarrow> ThematicIndex" where
  "add_link pk ck k t =
     t\<lparr>ti_sub_themes := ti_sub_themes t @ (if k = pk then [ck] else []),
       ti_parent_themes := ti_parent_themes t @ (if k = ck then [pk] else [])\<rparr>"

text \<open>The parent-child links of an index are symmetric.\<close>

definition links_symmetric :: "(string \<times> ThematicIndex) list \<Rightarrow> bool" where
  "links_symmetric idx =
     (\<forall>a \<in> snd ` set idx. \<forall>b \<in> snd ` set idx.
        (ti_theme_id b \<in> set (ti_sub_themes a)) = (ti_theme_id a \<in> set (ti_parent_themes b)))"

section \<open>Example inputs\<close>

text \<open>
  The end-to-end scenario: the verse table holds Genesis 1:1 (with the keyword that the
  verse store builder finds in its text), and the notes file has one row of three columns.
\<close>

definition scenario_store :: parser where
  "scenario_store = init_parser\<lparr>verses :=
     [(''GEN.1.1'', \<lparr>bv_book = ''GEN'', bv_chapter = 1, bv_verse = 1,
        bv_text = ''In the beginning God created the heaven and the earth.'',
        bv_note_ids = [], bv_keywords = [''God'']\<rparr>)]\<rparr>"

definition scenario_text :: string where
  "scenario_text = ''The first creative act ... See John 1:1-3''"

definition scenario_row :: string where
  "scenario_row = ''Genesis 1:1'' @ [CHR 0x09] @ scenario_text @ [CHR 0x09] @ ''Creation''"




text \<open>The row of the scenario without a category column.\<close>

definition two_column_row :: string where
  "two_column_row = ''Genesis 1:1'' @ [CHR 0x09] @ scenario_text"

text \<open>A row whose citation names chapter 99 of Genesis, and a row that names no book.\<close>

definition chapter99_row :: string where
  "chapter99_row = ''Genesis 99:1'' @ [CHR 0x09] @ ''No such chapter'' @ [CHR 0x09] @ ''Test''"

definition unknown_book_row :: string where
  "unknown_book_row = ''Xyz 1:1'' @ [CHR 0x09] @ ''An orphan note'' @ [CHR 0x09] @ ''Test''"

text \<open>
  A state for the reading-plan generator: the theme Salvation has ten notes and two verse
  ids, of which only the first is a key of the verse table.
\<close>

definition salvation_theme :: ThematicIndex where
  "salvation_theme =
     \<lparr>ti_theme_id = ''T001'', ti_name = ''Salvation'',
      ti_description = ''References to Salvation in Scofield notes'',
      ti_note_ids = [''N0001'', ''N0002'', ''N0003'', ''N0004'', ''N0005'',
                     ''N0006'', ''N0007'', ''N0008'', ''N0009'', ''N0010''],
      ti_verse_ids = [''GEN.1.1'', ''GEN.1.2''], ti_categories = [],
      ti_sub_themes = [], ti_parent_themes = [], ti_confidence_score = 12 / 100\<rparr>"

definition plan_example :: parser where
  "plan_example = scenario_store\<lparr>thematic_index := [(''T001'', salvation_theme)]\<rparr>"

text \<open>
  A second state for the reading-plan generator: the verse table holds the first 25 verses
  of Genesis 1 (texts left out), and the theme Salvation has those 25 verse ids and one of
  Exodus that is not in the table.
\<close>

definition genesis_1 :: "int \<Rightarrow> string \<times> BibleVerse" where
  "genesis_1 n =
     (verse_id_of ''GEN'' ''1'' n,
      \<lparr>bv_book = ''GEN'', bv_chapter = 1, bv_verse = n, bv_text = [],
       bv_note_ids = [], bv_keywords = []\<rparr>)"

definition capping_example :: parser where
  "capping_example = init_parser\<lparr>
     verses := map genesis_1 [1..25],
     thematic_index :=
       [(''T001'', salvation_theme\<lparr>
           ti_verse_ids := map (fst \<circ> genesis_1) [1..25] @ [''EXO.1.1''],
           ti_confidence_score := 36 / 100\<rparr>)]\<rparr>"

text \<open>A verse with two keywords, of which the first is a theme name in lower case.\<close>

definition keyword_verse :: "string \<times> BibleVerse" where
  "keyword_verse =
     (''ROM.3.24'', \<lparr>bv_book = ''ROM'', bv_chapter = 3, bv_verse = 24, bv_text = [],
        bv_note_ids = [], bv_keywords = [''grace'', ''God'']\<rparr>)"

text \<open>A state for the thematic indexer: two notes tagged with a parent and a child theme.\<close>

definition hierarchy_example :: parser where
  "hierarchy_example = init_parser\<lparr>notes :=
     [(''N0001'', new_note ''N0001'' ''salvation'' [''ROM.1.16''] ''Doctrine'' []
                    [''Salvation'']),
      (''N0002'', new_note ''N0002'' ''justification'' [''ROM.5.1''] ''Doctrine'' []
                    [''Justification''])]\<rparr>"
section \<open>The matcher: what a match consumes and captures\<close>

lemma in_plus_run:
  "s' \<in> set (plus_run p s) \<longleftrightarrow> (\<exists>pre. pre \<noteq> [] \<and> list_all p pre \<and> s = pre @ s')"
proof (induction s)
  case Nil
  then show ?case by simp
next
  case (Cons x xs)
  show ?case
  proof (cases "p x")
    case False
    then show ?thesis by (auto simp: Cons_eq_append_conv)
  next
    case True
    have "s' \<in> set (plus_run p (x # xs)) \<longleftrightarrow> s' \<in> set (plus_run p xs) \<or> s' = xs"
      using True by auto
    also have "\<dots> \<longleftrightarrow> (\<exists>pre. pre \<noteq> [] \<and> list_all p pre \<and> x # xs = pre @ s')"
    proof
      assume "s' \<in> set (plus_run p xs) \<or> s' = xs"
      then show "\<exists>pre. pre \<noteq> [] \<and> list_all p pre \<and> x # xs = pre @ s'"
      proof
        assume "s' \<in> set (plus_run p xs)"
        then obtain pre where "pre \<noteq> []" "list_all p pre" "xs = pre @ s'"
          using Cons.IH by blast
        then have "x # pre \<noteq> [] \<and> list_all p (x # pre) \<and> x # xs = (x # pre) @ s'"
          using True by simp
        then show ?thesis by blast
      next
        assume "s' = xs"
        then have "[x] \<noteq> [] \<and> list_all p [x] \<and> x # xs = [x] @ s'" using True by simp
        then show ?thesis by blast
      qed
    next
      assume "\<exists>pre. pre \<noteq> [] \<and> list_all p pre \<and> x # xs = pre @ s'"
      then obtain pre where pre: "pre \<noteq> []" "list_all p pre" "x # xs = pre @ s'" by blast
      then obtain q where q: "pre = x # q" "xs = q @ s'" by (cases pre) auto
      show "s' \<in> set (plus_run p xs) \<or> s' = xs"
      proof (cases q)
        case Nil
        then show ?thesis using q by simp
      next
        case (Cons a list)
        then have "q \<noteq> [] \<and> list_all p q \<and> xs = q @ s'" using pre q by simp
        then show ?thesis using Cons.IH by blast
      qed
    qed
    finally show ?thesis .
  qed
qed

lemma in_ms_Cls: "(s', c') \<in> set (ms (Cls p) (s, c)) \<longleftrightarrow> (\<exists>x. s = x # s' \<and> p x \<and> c' = c)"
  by (auto split: list.splits)
lemma in_ms_Seq: "x \<in> set (ms (Seq a b) st) \<longleftrightarrow> (\<exists>m \<in> set (ms a st). x \<in> set (ms b m))"
  by auto
lemma in_ms_Plus: "(s', c') \<in> set (ms (Plus p) (s, c)) \<longleftrightarrow>
   (\<exists>pre. pre \<noteq> [] \<and> list_all p pre \<and> s = pre @ s' \<and> c' = c)"
  by (auto simp: in_plus_run)

lemma ms_suffix: "(s', c') \<in> set (ms r (s, c)) \<Longrightarrow> \<exists>pre. s = pre @ s'"
proof (induction r arbitrary: s c s' c')
  case (Seq a b)
  then obtain s1 c1 where 1: "(s1, c1) \<in> set (ms a (s, c))" and 2: "(s', c') \<in> set (ms b (s1, c1))"
    by (auto simp: in_ms_Seq)
  from Seq.IH(1)[OF 1] Seq.IH(2)[OF 2] show ?case by auto
next
  case (Cls p) then show ?case by (auto simp: in_ms_Cls simp del: ms.simps)
next
  case (Plus p) then show ?case by (auto simp: in_ms_Plus simp del: ms.simps)
next
  case (Grp i a) then show ?case by auto
next
  case (Alt a b) then show ?case by auto
next
  case (Opt a) then show ?case by auto
qed simp

lemma ms_caps: "(s', c') \<in> set (ms r (s, c)) \<Longrightarrow> i \<notin> groups_of r \<Longrightarrow> c' i = c i"
proof (induction r arbitrary: s c s' c')
  case (Seq a b)
  then obtain s1 c1 where 1: "(s1, c1) \<in> set (ms a (s, c))" and 2: "(s', c') \<in> set (ms b (s1, c1))"
    by (auto simp: in_ms_Seq)
  from Seq.IH(1)[OF 1] Seq.IH(2)[OF 2] Seq.prems(2) show ?case by auto
next
  case (Cls p) then show ?case by (auto simp: in_ms_Cls simp del: ms.simps)
next
  case (Plus p) then show ?case by (auto simp: in_ms_Plus simp del: ms.simps)
next
  case (Grp j a) then show ?case by auto
next
  case (Alt a b) then show ?case by auto
next
  case (Opt a) then show ?case by auto
qed simp

lemma in_ms_Grp_Plus:
  assumes "(s', c') \<in> set (ms (Grp i (Plus p)) (s, c))"
  shows "\<exists>pre. pre \<noteq> [] \<and> list_all p pre \<and> s = pre @ s' \<and> c' = c(i \<mapsto> pre)"
proof -
  from assms obtain c'' where a: "(s', c'') \<in> set (ms (Plus p) (s, c))"
     and c: "c' = c''(i \<mapsto> take (length s - length s') s)" by auto
  from a obtain pre where "pre \<noteq> []" "list_all p pre" "s = pre @ s'" "c'' = c"
    unfolding in_ms_Plus by blast
  with c show ?thesis by auto
qed

lemma in_ms_Grp_Some:
  assumes "(s', c') \<in> set (ms (Grp i r) (s, c))"
  shows "\<exists>pre. s = pre @ s' \<and> c' i = Some pre"
proof -
  from assms obtain c'' where a: "(s', c'') \<in> set (ms r (s, c))"
     and c: "c' = c''(i \<mapsto> take (length s - length s') s)" by auto
  from ms_suffix[OF a] obtain pre where "s = pre @ s'" by blast
  with c show ?thesis by auto
qed

lemma in_ms_seqs_Cons:
  "x \<in> set (ms (seqs (r # rs)) st) \<longleftrightarrow> (\<exists>m \<in> set (ms r st). x \<in> set (ms (seqs rs) m))"
  by (simp add: seqs_def)

lemma groups_of_seqs: "groups_of (seqs rs) = (\<Union>r\<in>set rs. groups_of r)"
  by (induction rs) (simp_all add: seqs_def)

lemma seqs_ConsD:
  "x \<in> set (ms (seqs (r # rs)) st) \<Longrightarrow> \<exists>m. m \<in> set (ms r st) \<and> x \<in> set (ms (seqs rs) m)"
  by (auto simp: seqs_def)

lemma seqs_NilD: "x \<in> set (ms (seqs []) st) \<Longrightarrow> x = st"
  by (simp add: seqs_def)

lemma chr_i_caps: "(s', c') \<in> set (ms (chr_i k) (s, c)) \<Longrightarrow> c' = c"
  by (auto simp: chr_i_def split: list.splits if_splits)

lemma Opt_chr_i_caps: "(s', c') \<in> set (ms (Opt (chr_i k)) (s, c)) \<Longrightarrow> c' = c"
  by (auto simp: chr_i_def split: list.splits if_splits)

lemma Plus_caps: "(s', c') \<in> set (ms (Plus p) (s, c)) \<Longrightarrow> c' = c"
  by auto

lemma ref_rx_groups:
  assumes "(s', c') \<in> set (ms ref_rx (s, c))"
  shows "\<exists>b ch sv. c' 1 = Some b \<and> c' 2 = Some ch \<and> c' 3 = Some sv \<and>
           ch \<noteq> [] \<and> list_all is_digit ch \<and> sv \<noteq> [] \<and> list_all is_digit sv \<and>
           (c' 4 = c 4 \<or> (\<exists>ev. c' 4 = Some ev \<and> ev \<noteq> [] \<and> list_all is_digit ev))"
proof -
  from seqs_ConsD[OF assms[unfolded ref_rx_def]] obtain s1 c1
    where m1: "(s1, c1) \<in> set (ms (Grp 1 book_rx) (s, c))"
      and t1: "(s', c') \<in> set (ms (seqs [Opt (chr_i CHR ''.''), Plus is_space,
                 Grp 2 (Plus is_digit), chr_i CHR '':'', Grp 3 (Plus is_digit),
                 Opt (Seq (chr_i CHR ''-'') (Grp 4 (Plus is_digit)))]) (s1, c1))"
    by (metis surj_pair)
  from in_ms_Grp_Some[OF m1] obtain b where b: "c1 1 = Some b" by blast
  have c14: "c1 4 = c 4" using ms_caps[OF m1, of 4]
    by (simp add: book_rx_def groups_of_seqs)
  from seqs_ConsD[OF t1] obtain sa ca
    where ma: "(sa, ca) \<in> set (ms (Opt (chr_i CHR ''.'')) (s1, c1))"
      and ta: "(s', c') \<in> set (ms (seqs [Plus is_space,
                 Grp 2 (Plus is_digit), chr_i CHR '':'', Grp 3 (Plus is_digit),
                 Opt (Seq (chr_i CHR ''-'') (Grp 4 (Plus is_digit)))]) (sa, ca))"
    by (metis surj_pair)
  from seqs_ConsD[OF ta] obtain sb cb
    where mb: "(sb, cb) \<in> set (ms (Plus is_space) (sa, ca))"
      and t2: "(s', c') \<in> set (ms (seqs [
                 Grp 2 (Plus is_digit), chr_i CHR '':'', Grp 3 (Plus is_digit),
                 Opt (Seq (chr_i CHR ''-'') (Grp 4 (Plus is_digit)))]) (sb, cb))"
    by (metis surj_pair)
  have ca: "ca = c1" by (rule Opt_chr_i_caps[OF ma])
  have cb: "cb = ca" by (rule Plus_caps[OF mb])
  from seqs_ConsD[OF t2] obtain s2 c2
    where m2: "(s2, c2) \<in> set (ms (Grp 2 (Plus is_digit)) (sb, cb))"
      and tc: "(s', c') \<in> set (ms (seqs [chr_i CHR '':'', Grp 3 (Plus is_digit),
                 Opt (Seq (chr_i CHR ''-'') (Grp 4 (Plus is_digit)))]) (s2, c2))"
    by (metis surj_pair)
  from in_ms_Grp_Plus[OF m2] obtain ch where
    ch: "ch \<noteq> []" "list_all is_digit ch" "c2 = cb(2 \<mapsto> ch)" by blast
  from seqs_ConsD[OF tc] obtain sc cc
    where mc: "(sc, cc) \<in> set (ms (chr_i CHR '':'') (s2, c2))"
      and t3: "(s', c') \<in> set (ms (seqs [Grp 3 (Plus is_digit),
                 Opt (Seq (chr_i CHR ''-'') (Grp 4 (Plus is_digit)))]) (sc, cc))"
    by (metis surj_pair)
  have cc: "cc = c2" by (rule chr_i_caps[OF mc])
  from seqs_ConsD[OF t3] obtain s3 c3
    where m3: "(s3, c3) \<in> set (ms (Grp 3 (Plus is_digit)) (sc, cc))"
      and t4: "(s', c') \<in> set (ms (seqs [
                 Opt (Seq (chr_i CHR ''-'') (Grp 4 (Plus is_digit)))]) (s3, c3))"
    by (metis surj_pair)
  from in_ms_Grp_Plus[OF m3] obtain sv where
    sv: "sv \<noteq> []" "list_all is_digit sv" "c3 = cc(3 \<mapsto> sv)" by blast
  have c3vals: "c3 1 = Some b" "c3 2 = Some ch" "c3 3 = Some sv" "c3 4 = c 4"
    using sv ch cc cb ca b c14 by simp_all
  have keep: "c' 1 = c3 1" "c' 2 = c3 2" "c' 3 = c3 3"
    using ms_caps[OF t4, of 1] ms_caps[OF t4, of 2] ms_caps[OF t4, of 3]
    by (simp_all add: groups_of_seqs chr_i_def)
  from seqs_ConsD[OF t4] obtain s4 c4
    where m4: "(s4, c4) \<in> set (ms (Opt (Seq (chr_i CHR ''-'') (Grp 4 (Plus is_digit)))) (s3, c3))"
      and t5: "(s', c') \<in> set (ms (seqs []) (s4, c4))"
    by (metis surj_pair)
  have c4: "c4 = c'" using seqs_NilD[OF t5] by simp
  from m4 have "(s4, c4) = (s3, c3) \<or>
      (s4, c4) \<in> set (ms (Seq (chr_i CHR ''-'') (Grp 4 (Plus is_digit))) (s3, c3))"
    by auto
  then have four: "c4 4 = c 4 \<or> (\<exists>ev. c4 4 = Some ev \<and> ev \<noteq> [] \<and> list_all is_digit ev)"
  proof
    assume "(s4, c4) = (s3, c3)"
    then show ?thesis using c3vals by simp
  next
    assume "(s4, c4) \<in> set (ms (Seq (chr_i CHR ''-'') (Grp 4 (Plus is_digit))) (s3, c3))"
    then obtain sd cd where "(s4, c4) \<in> set (ms (Grp 4 (Plus is_digit)) (sd, cd))"
      unfolding in_ms_Seq by (metis surj_pair)
    from in_ms_Grp_Plus[OF this] show ?thesis by auto
  qed
  show ?thesis using keep c3vals four ch sv c4 by simp
qed

lemma re_match_in_ms: "re_match r s = Some st \<Longrightarrow> st \<in> set (ms r (s, Map.empty))"
  by (auto simp: re_match_def split: list.splits)

lemma ref_match_groups:
  assumes "ref_match s = Some (g1, g2, g3, g4)"
  shows "\<exists>b ch sv. g1 = Some b \<and> g2 = Some ch \<and> g3 = Some sv \<and>
           ch \<noteq> [] \<and> list_all is_digit ch \<and> sv \<noteq> [] \<and> list_all is_digit sv \<and>
           (g4 = None \<or> (\<exists>ev. g4 = Some ev \<and> ev \<noteq> [] \<and> list_all is_digit ev))"
proof -
  from assms obtain rest c where m: "re_match ref_rx s = Some (rest, c)"
    and g: "g1 = c 1" "g2 = c 2" "g3 = c 3" "g4 = c 4"
    by (auto simp: ref_match_def)
  from ref_rx_groups[OF re_match_in_ms[OF m]] show ?thesis using g by simp
qed

section \<open>Decimal numerals\<close>

lemma code_digit_char: "d < 10 \<Longrightarrow> code (digit_char d) = 48 + d"
  by (simp add: code_def digit_char_def)

lemma is_digit_digit_char: "d < 10 \<Longrightarrow> is_digit (digit_char d)"
  by (simp add: is_digit_def code_digit_char)

lemma str_nat_digits: "list_all is_digit (str_nat n)"
proof (induction n rule: str_nat.induct)
  case (1 n)
  show ?case
  proof (cases "n < 10")
    case True
    then show ?thesis by (subst str_nat.simps) (simp add: is_digit_digit_char)
  next
    case False
    then show ?thesis using 1 by (subst str_nat.simps) (simp add: is_digit_digit_char)
  qed
qed

lemma str_nat_nonempty: "str_nat n \<noteq> []"
  by (subst str_nat.simps) simp

lemma is_number_str_nat: "is_number (str_nat n)"
  by (simp add: is_number_def str_nat_digits str_nat_nonempty)

lemma digits_value_snoc: "digits_value (xs @ [c]) = 10 * digits_value xs + (code c - 48)"
  by (simp add: digits_value_def)

lemma digits_value_str_nat: "digits_value (str_nat n) = n"
proof (induction n rule: str_nat.induct)
  case (1 n)
  show ?case
  proof (cases "n < 10")
    case True
    then show ?thesis
      by (subst str_nat.simps) (simp add: digits_value_def code_digit_char)
  next
    case False
    then have "digits_value (str_nat (n div 10)) = n div 10" using 1 by simp
    then show ?thesis using False
      by (subst str_nat.simps) (simp add: digits_value_snoc code_digit_char)
  qed
qed

lemma digits_value_zeros: "digits_value (replicate k CHR ''0'' @ s) = digits_value s"
proof -
  have "foldl (\<lambda>a c. 10 * a + (code c - 48)) 0 (replicate k CHR ''0'') = 0"
    by (induction k) (simp_all add: code_def)
  then show ?thesis by (simp add: digits_value_def)
qed

lemma zero_pad_value: "digits_value (zero_pad w n) = n"
  by (simp add: zero_pad_def digits_value_zeros digits_value_str_nat)

lemma zero_pad_inj: "zero_pad w m = zero_pad w n \<Longrightarrow> m = n"
  by (metis zero_pad_value)

lemma zero_pad_digits: "list_all is_digit (zero_pad w n)"
proof -
  have "is_digit CHR ''0''" by (simp add: is_digit_def code_def)
  then show ?thesis
    using str_nat_digits[of n] by (auto simp: zero_pad_def list_all_iff)
qed

lemma zero_pad_length: "w \<le> length (zero_pad w n)"
  by (simp add: zero_pad_def)

section \<open>Digits and the other character classes\<close>

lemma digit_not_space: "is_digit c \<Longrightarrow> \<not> is_space c"
  by (auto simp: is_digit_def is_space_def Let_def)

lemma digit_not_special:
  assumes "is_digit c"
  shows "c \<noteq> CHR ''_''" "c \<noteq> CHR ''-''" "c \<noteq> CHR ''+''" "c \<noteq> CHR ''.''" "c \<noteq> CHR ''N''"
  using assms by (auto simp: is_digit_def code_def)

lemma digit_not_int_space: "is_digit c \<Longrightarrow> \<not> is_int_space c"
  by (auto simp: is_digit_def is_int_space_def Let_def)

lemma trim_none:
  assumes "\<forall>c\<in>set s. \<not> p c"
  shows "rev (dropWhile p (rev (dropWhile p s))) = s"
proof -
  have 1: "dropWhile p s = s" using assms by (cases s) auto
  have 2: "dropWhile p (rev s) = rev s" using assms by (cases "rev s") (auto simp: Cons_eq_rev_iff)
  show ?thesis by (simp add: 1 2)
qed

lemma strip_no_space:
  assumes "\<forall>c\<in>set s. \<not> is_space c"
  shows "strip s = s"
  unfolding strip_def by (rule trim_none[OF assms])

lemma split_char_no_sep: "sep \<notin> set s \<Longrightarrow> split_char sep s = [s]"
  by (induction s) auto

lemma py_int_str_number:
  assumes "is_number ds"
  shows "py_int_str ds =
           (if length ds \<le> int_max_str_digits then Inr (int (digits_value ds))
            else Inl ValueError)"
proof -
  from assms have ne: "ds \<noteq> []" and dig: "\<forall>c\<in>set ds. is_digit c"
    by (auto simp: is_number_def list_all_iff)
  have st: "rev (dropWhile is_int_space (rev (dropWhile is_int_space ds))) = ds"
    using dig by (intro trim_none) (auto dest: digit_not_int_space)
  have hd: "is_digit (hd ds)" using ne dig by (cases ds) auto
  have sp: "split_char CHR ''_'' ds = [ds]"
    using dig by (intro split_char_no_sep) (auto dest: digit_not_special)
  have flt: "filter (\<lambda>c. c \<noteq> CHR ''_'') ds = ds"
    using dig by (auto simp: filter_id_conv dest: digit_not_special)
  show ?thesis
    using ne hd digit_not_special[OF hd] assms
    by (simp add: py_int_str_def st Let_def digit_groups_ok_def sp flt is_number_def)
qed

lemma py_int_number:
  assumes "is_number ds" and "length ds \<le> int_max_str_digits"
  shows "py_int (Some ds) = Inr (int (digits_value ds))"
  using assms by (simp add: py_int_def py_int_str_number)

lemma py_int_long:
  assumes "is_number ds" and "int_max_str_digits < length ds"
  shows "py_int (Some ds) = Inl ValueError"
  using assms by (simp add: py_int_def py_int_str_number)

text \<open>
  A value of \<^verbatim>\<open>int\<close> has at most 4300 digits, so that \<^verbatim>\<open>str\<close> prints it (and every
  integer between two such values) in full.
\<close>

lemma digits_value_bound: "list_all is_digit s \<Longrightarrow> digits_value s < 10 ^ length s"
proof (induction s rule: rev_induct)
  case Nil
  then show ?case by (simp add: digits_value_def)
next
  case (snoc c s)
  then have "digits_value s < 10 ^ length s" and "code c - 48 \<le> 9"
    by (auto simp: is_digit_def Let_def)
  then have "10 * digits_value s + (code c - 48) < 10 * 10 ^ length s" by linarith
  then show ?case by (simp add: digits_value_snoc)
qed

lemma split_char_nonempty: "split_char sep s \<noteq> []"
  by (induction s) (auto split: list.splits)

lemma split_groups_digits:
  "list_all (list_all is_digit) (split_char CHR ''_'' s) \<Longrightarrow>
   list_all is_digit (filter (\<lambda>c. c \<noteq> CHR ''_'') s)"
proof (induction s)
  case Nil
  then show ?case by simp
next
  case (Cons x s)
  obtain w ws where w: "split_char CHR ''_'' s = w # ws"
    using split_char_nonempty[of "CHR ''_''" s] by (cases "split_char CHR ''_'' s") auto
  show ?case
  proof (cases "x = CHR ''_''")
    case True
    with Cons show ?thesis by simp
  next
    case False
    with Cons.prems w have "is_digit x" and "list_all (list_all is_digit) (w # ws)"
      by simp_all
    with Cons.IH w False show ?thesis by simp
  qed
qed

lemma digit_groups_digits:
  assumes "digit_groups_ok s"
  shows "list_all is_digit (filter (\<lambda>c. c \<noteq> CHR ''_'') s)"
proof (rule split_groups_digits)
  from assms show "list_all (list_all is_digit) (split_char CHR ''_'' s)"
    by (simp add: digit_groups_ok_def list_all_iff)
qed

lemma py_int_str_bound:
  assumes "py_int_str s = Inr v"
  shows "\<bar>v\<bar> < 10 ^ int_max_str_digits"
proof -
  define t where "t = rev (dropWhile is_int_space (rev (dropWhile is_int_space s)))"
  define body where "body = (if t \<noteq> [] \<and> (hd t = CHR ''-'' \<or> hd t = CHR ''+'') then tl t else t)"
  define ds where "ds = filter (\<lambda>c. c \<noteq> CHR ''_'') body"
  from assms have ok: "digit_groups_ok body" and len: "length ds \<le> int_max_str_digits"
    and v: "\<bar>v\<bar> = int (digits_value ds)"
    by (auto simp: py_int_str_def Let_def t_def body_def ds_def split: if_splits)
  have "digits_value ds < 10 ^ length ds"
    unfolding ds_def by (rule digits_value_bound[OF digit_groups_digits[OF ok]])
  also have "\<dots> \<le> 10 ^ int_max_str_digits"
    using len by (simp add: power_increasing)
  finally have "int (digits_value ds) < int (10 ^ int_max_str_digits)"
    by (simp only: of_nat_less_iff)
  with v show ?thesis by simp
qed

section \<open>What the reference parser returns\<close>

lemma ref_match_Nil: "ref_match [] = None"
  by code_simp

lemma parse_ref_part_no_match: "ref_match p = None \<Longrightarrow> parse_ref_part p = Inr []"
  by (simp add: parse_ref_part_def)

text \<open>
  A fragment that matches: the groups are a book token and numerals; the fragment yields
  nothing when the book does not resolve, a ValueError when a verse numeral is longer than
  \<^verbatim>\<open>int\<close> takes, and the verse ids of the range otherwise.
\<close>

lemma parse_ref_part_match:
  assumes "ref_match p = Some (g1, g2, g3, g4)"
  shows "\<exists>b ch sv. g1 = Some b \<and> g2 = Some ch \<and> g3 = Some sv \<and> is_number ch \<and> is_number sv \<and>
           (g4 = None \<or> (\<exists>ev. g4 = Some ev \<and> is_number ev)) \<and>
           parse_ref_part p =
             (case book_name_to_abbrev b of
                None \<Rightarrow> Inr []
              | Some ab \<Rightarrow>
                  if length sv \<le> int_max_str_digits \<and>
                     (case g4 of None \<Rightarrow> True | Some ev \<Rightarrow> length ev \<le> int_max_str_digits)
                  then Inr (map (verse_id_of ab ch)
                         [int (digits_value sv) ..
                          (case g4 of None \<Rightarrow> int (digits_value sv)
                                    | Some ev \<Rightarrow> int (digits_value ev))])
                  else Inl ValueError)"
proof -
  from ref_match_groups[OF assms] obtain b ch sv where
    g: "g1 = Some b" "g2 = Some ch" "g3 = Some sv" and
    n: "is_number ch" "is_number sv" and
    g4: "g4 = None \<or> (\<exists>ev. g4 = Some ev \<and> is_number ev)"
    unfolding is_number_def by blast
  have "parse_ref_part p =
             (case book_name_to_abbrev b of
                None \<Rightarrow> Inr []
              | Some ab \<Rightarrow>
                  if length sv \<le> int_max_str_digits \<and>
                     (case g4 of None \<Rightarrow> True | Some ev \<Rightarrow> length ev \<le> int_max_str_digits)
                  then Inr (map (verse_id_of ab ch)
                         [int (digits_value sv) ..
                          (case g4 of None \<Rightarrow> int (digits_value sv)
                                    | Some ev \<Rightarrow> int (digits_value ev))])
                  else Inl ValueError)"
    using g4
  proof
    assume "g4 = None"
    then show ?thesis
      by (simp add: parse_ref_part_def assms g py_int_def py_int_str_number[OF n(2)] fmt_group_def
          split: option.splits)
  next
    assume "\<exists>ev. g4 = Some ev \<and> is_number ev"
    then obtain ev where ev: "g4 = Some ev" "is_number ev" by blast
    then have "ev \<noteq> []" by (simp add: is_number_def)
    then show ?thesis
      by (simp add: parse_ref_part_def assms g ev py_int_def py_int_str_number[OF n(2)]
          py_int_str_number[OF ev(2)] fmt_group_def split: option.splits)
  qed
  with g n g4 show ?thesis by blast
qed

lemma parse_ref_part_error: "parse_ref_part p = Inl e \<Longrightarrow> e = ValueError"
proof (cases "ref_match p")
  case None
  assume "parse_ref_part p = Inl e"
  with None show ?thesis by (simp add: parse_ref_part_no_match)
next
  case (Some g)
  assume e: "parse_ref_part p = Inl e"
  obtain g1 g2 g3 g4 where "g = (g1, g2, g3, g4)" by (cases g)
  with Some parse_ref_part_match[of p g1 g2 g3 g4] e show ?thesis
    by (auto split: option.splits if_splits)
qed

lemma parse_ref_part_Nil: "parse_ref_part [] = Inr []"
  by (simp add: parse_ref_part_no_match ref_match_Nil)



lemma parse_ref_parts_ids:
  assumes "parse_ref_parts ps acc = Inr r" and "i \<in> set r"
  shows "i \<in> set acc \<or> (\<exists>p ids. parse_ref_part p = Inr ids \<and> i \<in> set ids)"
  using assms
proof (induction ps arbitrary: acc)
  case Nil
  then show ?case by simp
next
  case (Cons p ps)
  show ?case
  proof (cases "strip p = []")
    case True
    with Cons.prems have "parse_ref_parts ps acc = Inr r" by simp
    from Cons.IH[OF this Cons.prems(2)] show ?thesis .
  next
    case False
    show ?thesis
    proof (cases "parse_ref_part (strip p)")
      case (Inl e)
      with False Cons.prems show ?thesis by simp
    next
      case (Inr ids)
      with False Cons.prems have "parse_ref_parts ps (acc @ ids) = Inr r" by simp
      from Cons.IH[OF this Cons.prems(2)] Inr show ?thesis by auto
    qed
  qed
qed

lemma parse_verse_reference_ids:
  assumes "parse_verse_reference s = Inr r" and "i \<in> set r"
  shows "\<exists>p ids. parse_ref_part p = Inr ids \<and> i \<in> set ids"
  using parse_ref_parts_ids[OF assms(1)[unfolded parse_verse_reference_def] assms(2)] by simp

lemma parse_verse_reference_error: "parse_verse_reference s = Inl e \<Longrightarrow> e = ValueError"
proof -
  have "parse_ref_parts ps acc = Inl e \<Longrightarrow> e = ValueError" for ps acc
  proof (induction ps arbitrary: acc)
    case Nil
    then show ?case by simp
  next
    case (Cons p ps)
    show ?case
    proof (cases "strip p = []")
      case True
      with Cons show ?thesis by simp
    next
      case False
      with Cons show ?thesis
        by (auto simp: Let_def split: sum.splits dest: parse_ref_part_error)
    qed
  qed
  then show "parse_verse_reference s = Inl e \<Longrightarrow> e = ValueError"
    by (simp add: parse_verse_reference_def)
qed


lemma unresolved_parse_empty: "unresolved_fragment f \<Longrightarrow> parse_ref_part f = Inr []"
proof (cases "ref_match f")
  case None
  then show ?thesis by (simp add: parse_ref_part_no_match)
next
  case (Some g)
  assume u: "unresolved_fragment f"
  obtain g1 g2 g3 g4 where g: "g = (g1, g2, g3, g4)" by (cases g)
  from Some g have "f \<noteq> []" using ref_match_Nil by auto
  with u Some g obtain bn where "g1 = Some bn" "book_name_to_abbrev bn = None"
    by (auto simp: unresolved_fragment_def split: option.splits)
  with parse_ref_part_match[OF Some[unfolded g]] show ?thesis by auto
qed

lemma unresolved_parts_empty:
  assumes "\<forall>frag\<in>set ps. unresolved_fragment (strip frag)"
  shows "parse_ref_parts ps acc = Inr acc"
  using assms
proof (induction ps)
  case Nil
  then show ?case by simp
next
  case (Cons p ps)
  then show ?case by (simp add: Let_def unresolved_parse_empty)
qed

section \<open>Book tokens and fragments with a range\<close>


text \<open>
  The title-case form of the sharp s is Ss; lower-cased, it occurs in Colossians, the first
  book of the registry whose name contains it.
\<close>

lemma sharp_s_resolves: "book_name_to_abbrev [CHR 0xDF] = Some ''COL''"
  by code_simp



section \<open>The greedy match of the reference pattern\<close>






















section \<open>Range expansion\<close>













section \<open>Unresolved citations\<close>

text \<open>
  C8. When every fragment of a reference string is empty, fails to match the reference
  pattern or names a book that does not resolve, the reference parser returns the empty list
  (and so raises no exception).
\<close>

theorem unresolved_citation_empty:
  assumes "\<forall>frag\<in>set (split_runs is_sep ref_str). unresolved_fragment (strip frag)"
  shows "parse_verse_reference ref_str = Inr []"
  unfolding parse_verse_reference_def by (rule unresolved_parts_empty[OF assms])

lemma Xyz_fragments: "split_runs is_sep ''Xyz 1:1'' = [''Xyz 1:1'']"
  by code_simp

lemma Xyz_unresolved: "unresolved_fragment (strip ''Xyz 1:1'')"
  by code_simp

lemma no_citation_fragments:
  "split_runs is_sep ''Xyz 1:1; see above,'' = [''Xyz 1:1'', '' see above'', []]"
  by code_simp

lemma see_above_unresolved: "unresolved_fragment (strip '' see above'')"
  by code_simp

lemma empty_unresolved: "unresolved_fragment (strip [])"
  by code_simp

theorem unresolved_citation_empty_witness:
  "list_all (\<lambda>frag. unresolved_fragment (strip frag)) (split_runs is_sep ''Xyz 1:1'') \<and>
   parse_verse_reference ''Xyz 1:1'' = Inr [] \<and>
   list_all (\<lambda>frag. unresolved_fragment (strip frag))
     (split_runs is_sep ''Xyz 1:1; see above,'') \<and>
   parse_verse_reference ''Xyz 1:1; see above,'' = Inr []"
proof -
  have h1: "list_all (\<lambda>frag. unresolved_fragment (strip frag)) (split_runs is_sep ''Xyz 1:1'')"
    unfolding Xyz_fragments by (simp add: Xyz_unresolved)
  have h2: "list_all (\<lambda>frag. unresolved_fragment (strip frag))
              (split_runs is_sep ''Xyz 1:1; see above,'')"
    unfolding no_citation_fragments
    by (simp add: Xyz_unresolved see_above_unresolved empty_unresolved)
  note r1 = unresolved_citation_empty[OF h1[unfolded list_all_iff]]
  note r2 = unresolved_citation_empty[OF h2[unfolded list_all_iff]]
  show ?thesis by (intro conjI) (rule h1, rule r1, rule h2, rule r2)
qed

section \<open>The end-to-end scenario\<close>

lemma scenario_row_strip:
  "strip scenario_row =
     ''Genesis 1:1'' @ [CHR 0x09] @ ''The first creative act ... See John 1:1-3'' @ [CHR 0x09] @ ''Creation''"
  by code_simp

lemma scenario_row_columns:
  "split_char CHR 0x09 (strip scenario_row) = [''Genesis 1:1'', scenario_text, ''Creation'']"
  by code_simp

lemma scenario_columns_strip:
  "strip ''Genesis 1:1'' = ''Genesis 1:1''" "strip scenario_text = scenario_text"
  "strip ''Creation'' = ''Creation''"
  by code_simp+

lemma parse_Genesis_1_1: "parse_verse_reference ''Genesis 1:1'' = Inr [''GEN.1.1'']"
  by code_simp

lemma parse_John_1_1: "parse_verse_reference ''John 1:1'' = Inr [''JOH.1.1'']"
  by code_simp

lemma scenario_cues: "findall cross_ref_pattern scenario_text = [''John 1:1'']"
  by code_simp

lemma zero_pad_4_1: "zero_pad 4 (Suc 0) = ''0001''"
  by code_simp

lemma scenario_run:
  "parse_notes_tsv scenario_store [scenario_row] =
     scenario_store\<lparr>
       verses := [(''GEN.1.1'', \<lparr>bv_book = ''GEN'', bv_chapter = 1, bv_verse = 1,
          bv_text = ''In the beginning God created the heaven and the earth.'',
          bv_note_ids = [''N0001''], bv_keywords = [''God'']\<rparr>)],
       notes := [(''N0001'', new_note ''N0001'' scenario_text [''GEN.1.1''] ''Creation'' []
                    (extract_themes_from_note scenario_text))],
       cross_refs := [new_cross_ref ''N0001'' ''JOH.1.1''],
       note_counter := 2\<rparr>"
proof -
  have line: "parse_notes_line scenario_store scenario_row =
      add_note_row scenario_store ''Genesis 1:1'' scenario_text ''Creation'' []"
    unfolding parse_notes_line_def Let_def scenario_row_columns
    by (simp add: scenario_row_strip scenario_columns_strip)
  show ?thesis
    unfolding parse_notes_tsv_def foldl.simps line
    by (simp add: add_note_row_def parse_Genesis_1_1 scenario_store_def init_parser_def
        zero_pad_4_1 link_note_def extract_cross_refs_from_note_def scenario_cues
        parse_John_1_1 Let_def)
qed

text \<open>
  A row needs three columns: the guard of \<^verbatim>\<open>_parse_notes_tsv\<close> is
  \<^verbatim>\<open>len(parts) >= 3\<close>, so the scenario row without a category is skipped.
\<close>

lemma two_column_row_skipped:
  "parse_notes_tsv scenario_store [two_column_row] = scenario_store"
proof -
  have "split_char CHR 0x09 (strip two_column_row) = [''Genesis 1:1'', scenario_text]"
    by code_simp
  moreover have "strip two_column_row \<noteq> [] \<and> \<not> prefix ''#'' (strip two_column_row)"
    by code_simp
  ultimately show ?thesis
    by (simp add: parse_notes_tsv_def parse_notes_line_def Let_def)
qed

text \<open>
  C1, as amended. For the scenario input (the verse table with Genesis 1:1 and one row
  with the reference "Genesis 1:1", the text "The first creative act ... See John 1:1-3"
  and a category column), the note builder creates exactly one note, N0001, linked to
  GEN.1.1, and the extractor emits exactly one edge: from N0001 to JOH.1.1, of type
  "explanation" and confidence 0.8. The cue pattern captures the citation up to the start
  verse, so the end of the range is not part of what the reference parser is given.
\<close>

theorem scenario_one_note_one_edge:
  "map fst (notes (parse_notes_tsv scenario_store [scenario_row])) = [''N0001''] \<and>
   map (\<lambda>(k, n). (sn_note_id n, sn_linked_verses n))
     (notes (parse_notes_tsv scenario_store [scenario_row])) = [(''N0001'', [''GEN.1.1''])] \<and>
   cross_refs (parse_notes_tsv scenario_store [scenario_row]) =
     [\<lparr>cr_source_id = ''N0001'', cr_target_id = ''JOH.1.1'', cr_ref_type = ''explanation'',
       cr_description = ''Referenced in note N0001'', cr_confidence = 8 / 10, cr_tags = []\<rparr>]"
  unfolding scenario_run
  by (simp add: new_note_def new_cross_ref_def post_init_note_id_def)

text \<open>
  C1, as stated, fails on the scenario input: no edge to JOH.1.2 is emitted (nor to
  JOH.1.3).
\<close>

theorem scenario_no_edge_to_John_1_2:
  "''JOH.1.2'' \<notin> set (map cr_target_id (cross_refs (parse_notes_tsv scenario_store [scenario_row])))"
  unfolding scenario_run
  by (simp add: new_cross_ref_def)

section \<open>The note builder, row by row\<close>

lemma add_note_row_empty:
  "parse_verse_reference ref_str = Inr [] \<Longrightarrow> add_note_row st ref_str note_text category kws = st"
  by (simp add: add_note_row_def)

lemma add_note_row_error:
  "parse_verse_reference ref_str = Inl e \<Longrightarrow> add_note_row st ref_str note_text category kws = st"
  by (simp add: add_note_row_def)

lemma add_note_row_some:
  assumes "parse_verse_reference ref_str = Inr verse_refs" and "verse_refs \<noteq> []"
  shows "add_note_row st ref_str note_text category kws =
     st\<lparr>notes := AList.update (''N'' @ zero_pad 4 (note_counter st))
                    (new_note (''N'' @ zero_pad 4 (note_counter st)) note_text verse_refs category
                       (filter (\<lambda>k. k \<noteq> []) (map strip kws))
                       (extract_themes_from_note note_text)) (notes st),
         verses := foldl (link_note (''N'' @ zero_pad 4 (note_counter st))) (verses st) verse_refs,
         note_counter := note_counter st + 1,
         cross_refs := fst (extract_cross_refs_from_note (''N'' @ zero_pad 4 (note_counter st))
                              note_text (cross_refs st))\<rparr>"
  using assms by (simp add: add_note_row_def Let_def)

lemma parse_notes_line_cases:
  "parse_notes_line st row = st \<or>
   (\<exists>note_text category kws.
      parse_notes_line st row = add_note_row st (row_reference row) note_text category kws)"
  by (auto simp: parse_notes_line_def row_reference_def Let_def split: list.splits)

lemma parse_notes_line_orphan:
  "parse_verse_reference (row_reference row) = Inr [] \<Longrightarrow> parse_notes_line st row = st"
  using parse_notes_line_cases[of st row] by (auto simp: add_note_row_empty)

lemma snd_set_update: "snd ` set (AList.update k v al) \<subseteq> insert v (snd ` set al)"
  by (induction al) auto

lemma add_note_row_notes:
  "notes (add_note_row st ref_str note_text category kws) = notes st \<or>
   (\<exists>k n. sn_linked_verses n \<noteq> [] \<and>
      notes (add_note_row st ref_str note_text category kws) = AList.update k n (notes st))"
proof (cases "parse_verse_reference ref_str")
  case (Inl e)
  then show ?thesis by (simp add: add_note_row_error)
next
  case refs: (Inr refs)
  show ?thesis
  proof (cases "refs = []")
    case True
    then show ?thesis using refs by (simp add: add_note_row_empty)
  next
    case False
    have "sn_linked_verses (new_note (''N'' @ zero_pad 4 (note_counter st)) note_text refs category
             (filter (\<lambda>k. k \<noteq> []) (map strip kws)) (extract_themes_from_note note_text)) \<noteq> []"
      using False by (simp add: new_note_def)
    moreover have "notes (add_note_row st ref_str note_text category kws) =
       AList.update (''N'' @ zero_pad 4 (note_counter st))
         (new_note (''N'' @ zero_pad 4 (note_counter st)) note_text refs category
             (filter (\<lambda>k. k \<noteq> []) (map strip kws)) (extract_themes_from_note note_text))
         (notes st)"
      by (simp add: add_note_row_some[OF refs False])
    ultimately show ?thesis by blast
  qed
qed

lemma parse_notes_line_notes:
  "notes (parse_notes_line st row) = notes st \<or>
   (\<exists>k n. sn_linked_verses n \<noteq> [] \<and>
      notes (parse_notes_line st row) = AList.update k n (notes st))"
proof -
  from parse_notes_line_cases[of st row] show ?thesis
  proof
    assume "parse_notes_line st row = st"
    then show ?thesis by simp
  next
    assume "\<exists>note_text category kws.
      parse_notes_line st row = add_note_row st (row_reference row) note_text category kws"
    then obtain note_text category kws where
      "parse_notes_line st row = add_note_row st (row_reference row) note_text category kws"
      by blast
    then show ?thesis
      using add_note_row_notes[of st "row_reference row" note_text category kws] by simp
  qed
qed

lemma parse_notes_line_linked:
  assumes "\<forall>n\<in>snd ` set (notes st). sn_linked_verses n \<noteq> []"
  shows "\<forall>n\<in>snd ` set (notes (parse_notes_line st row)). sn_linked_verses n \<noteq> []"
proof -
  from parse_notes_line_notes[of st row] show ?thesis
  proof
    assume "notes (parse_notes_line st row) = notes st"
    then show ?thesis using assms by simp
  next
    assume "\<exists>k n. sn_linked_verses n \<noteq> [] \<and>
      notes (parse_notes_line st row) = AList.update k n (notes st)"
    then obtain k n where n: "sn_linked_verses n \<noteq> []"
      and eq: "notes (parse_notes_line st row) = AList.update k n (notes st)" by blast
    show ?thesis unfolding eq using snd_set_update[of k n "notes st"] n assms by blast
  qed
qed

lemma parse_notes_tsv_linked:
  assumes "\<forall>n\<in>snd ` set (notes st). sn_linked_verses n \<noteq> []"
  shows "\<forall>n\<in>snd ` set (notes (parse_notes_tsv st rows)). sn_linked_verses n \<noteq> []"
  using assms unfolding parse_notes_tsv_def
proof (induction rows arbitrary: st)
  case Nil
  then show ?case by simp
next
  case (Cons row rows)
  from Cons.IH[OF parse_notes_line_linked[OF Cons.prems]] show ?case by simp
qed

text \<open>
  C3. A row whose reference string resolves to no verse id leaves every table and the note
  counter as they were; hence, if every note of the table has a non-empty list of linked
  verses before the notes file is read, so has every note afterwards, and after a fresh
  parser has read a notes file every note has a non-empty list of linked verses.
\<close>

theorem orphan_rows_discarded:
  "(parse_verse_reference (row_reference row) = Inr [] \<longrightarrow> parse_notes_line st row = st) \<and>
   ((\<forall>n\<in>snd ` set (notes st). sn_linked_verses n \<noteq> []) \<longrightarrow>
      (\<forall>n\<in>snd ` set (notes (parse_notes_tsv st rows)). sn_linked_verses n \<noteq> [])) \<and>
   (\<forall>n\<in>snd ` set (notes (parse_notes_tsv (init_parser\<lparr>verses := vs\<rparr>) rows)).
      sn_linked_verses n \<noteq> [])"
proof (intro conjI impI)
  assume "parse_verse_reference (row_reference row) = Inr []"
  then show "parse_notes_line st row = st" by (rule parse_notes_line_orphan)
next
  assume "\<forall>n\<in>snd ` set (notes st). sn_linked_verses n \<noteq> []"
  then show "\<forall>n\<in>snd ` set (notes (parse_notes_tsv st rows)). sn_linked_verses n \<noteq> []"
    by (rule parse_notes_tsv_linked)
next
  have "notes (init_parser\<lparr>verses := vs\<rparr>) = []"
    by (simp add: init_parser_def)
  then have "\<forall>n\<in>snd ` set (notes (init_parser\<lparr>verses := vs\<rparr>)). sn_linked_verses n \<noteq> []"
    by simp
  then show "\<forall>n\<in>snd ` set (notes (parse_notes_tsv (init_parser\<lparr>verses := vs\<rparr>) rows)).
      sn_linked_verses n \<noteq> []"
    by (rule parse_notes_tsv_linked)
qed

lemma unknown_book_row_reference: "row_reference unknown_book_row = ''Xyz 1:1''"
  by code_simp

lemma scenario_store_notes: "notes scenario_store = []"
  by (simp add: scenario_store_def init_parser_def)

theorem orphan_rows_discarded_witness:
  "parse_verse_reference (row_reference unknown_book_row) = Inr [] \<and>
   parse_notes_line scenario_store unknown_book_row = scenario_store \<and>
   list_all (\<lambda>n. sn_linked_verses n \<noteq> []) (map snd (notes scenario_store)) \<and>
   map fst (notes (parse_notes_tsv scenario_store [unknown_book_row, scenario_row])) = [''N0001''] \<and>
   list_all (\<lambda>n. sn_linked_verses n \<noteq> [])
     (map snd (notes (parse_notes_tsv scenario_store [unknown_book_row, scenario_row])))"
proof -
  have h: "parse_verse_reference (row_reference unknown_book_row) = Inr []"
    unfolding unknown_book_row_reference
    using unresolved_citation_empty_witness by simp
  have inv: "\<forall>n\<in>snd ` set (notes scenario_store). sn_linked_verses n \<noteq> []"
    by (simp add: scenario_store_notes)
  note inst = orphan_rows_discarded[of unknown_book_row scenario_store
      "[unknown_book_row, scenario_row]"]
  from inst h have same: "parse_notes_line scenario_store unknown_book_row = scenario_store"
    by blast
  from inst inv have all: "\<forall>n\<in>snd ` set (notes (parse_notes_tsv scenario_store
      [unknown_book_row, scenario_row])). sn_linked_verses n \<noteq> []" by blast
  have run: "parse_notes_tsv scenario_store [unknown_book_row, scenario_row] =
      parse_notes_tsv scenario_store [scenario_row]"
    by (simp add: parse_notes_tsv_def same)
  have keys: "map fst (notes (parse_notes_tsv scenario_store [unknown_book_row, scenario_row])) =
      [''N0001'']"
    unfolding run scenario_run by simp
  show ?thesis using h same all keys
    by (simp add: scenario_store_notes list_all_iff)
qed

section \<open>Verse ids and note ids\<close>

lemma split_char_append_sep:
  "sep \<notin> set a \<Longrightarrow> split_char sep (a @ sep # b) = a # split_char sep b"
  by (induction a) (auto split: list.splits)

lemma length_split_char:
  "length (split_char sep s) = Suc (length (filter (\<lambda>c. c = sep) s))"
proof (induction s)
  case Nil
  then show ?case by simp
next
  case (Cons x xs)
  then show ?case
    using split_char_nonempty[of sep xs] by (cases "split_char sep xs") auto
qed

lemma abbrev_no_dot:
  "ab \<in> set (map fst BIBLE_BOOKS) \<Longrightarrow> CHR ''.'' \<notin> set ab"
  by (auto simp: BIBLE_BOOKS_def)

lemma variations_in_registry: "snd ` set variations \<subseteq> set (map fst BIBLE_BOOKS)"
  by (simp add: variations_def BIBLE_BOOKS_def)

lemma find_Some_mem: "find P xs = Some x \<Longrightarrow> x \<in> set xs"
  by (induction xs) (auto split: if_splits)

lemma book_name_to_abbrev_registry:
  assumes "book_name_to_abbrev b = Some ab"
  shows "ab \<in> set (map fst BIBLE_BOOKS)"
proof (cases "map_of (map (\<lambda>(name, abbrev). (wide name, abbrev)) variations) (title (strip b))")
  case (Some a)
  with assms have "a = ab" by (simp add: book_name_to_abbrev_def Let_def)
  with Some have "(title (strip b), ab) \<in> set (map (\<lambda>(name, abbrev). (wide name, abbrev)) variations)"
    by (intro map_of_SomeD) simp
  then have "ab \<in> snd ` set variations" by force
  then show ?thesis using variations_in_registry by blast
next
  case None
  show ?thesis
  proof (cases "find (\<lambda>(abbrev, full_name).
                        wide (str_lower full_name) = ustr_lower (title (strip b))) BIBLE_BOOKS")
    case (Some e)
    obtain a f where e: "e = (a, f)" by (cases e)
    from assms None Some e have "a = ab" by (simp add: book_name_to_abbrev_def Let_def)
    moreover from find_Some_mem[OF Some] e have "(a, f) \<in> set BIBLE_BOOKS" by simp
    ultimately show ?thesis by force
  next
    case N2: None
    show ?thesis
    proof (cases "find (\<lambda>(abbrev, full_name).
                          sublist (ustr_lower (title (strip b))) (wide (str_lower full_name)))
                    BIBLE_BOOKS")
      case (Some e)
      obtain a f where e: "e = (a, f)" by (cases e)
      from assms None N2 Some e have "a = ab" by (simp add: book_name_to_abbrev_def Let_def)
      moreover from find_Some_mem[OF Some] e have "(a, f) \<in> set BIBLE_BOOKS" by simp
      ultimately show ?thesis by force
    next
      case N3: None
      with assms None N2 show ?thesis by (simp add: book_name_to_abbrev_def Let_def)
    qed
  qed
qed

lemma number_no_dot: "is_number s \<Longrightarrow> CHR ''.'' \<notin> set s"
  by (auto simp: is_number_def list_all_iff dest: digit_not_special)

lemma verse_id_of_is_verse_id:
  assumes "ab \<in> set (map fst BIBLE_BOOKS)" and "is_number ch" and "0 \<le> n"
  shows "is_verse_id (verse_id_of ab ch n)"
proof -
  have v: "str_int n = str_nat (nat n)" using assms(3) by (simp add: str_int_def)
  have nv: "is_number (str_nat (nat n))" by (rule is_number_str_nat)
  have "split_char CHR ''.'' (ab @ CHR ''.'' # ch @ CHR ''.'' # str_nat (nat n)) =
          [ab, ch, str_nat (nat n)]"
    using abbrev_no_dot[OF assms(1)] number_no_dot[OF assms(2)] number_no_dot[OF nv]
    by (simp add: split_char_append_sep split_char_no_sep)
  then show ?thesis
    using assms(1,2) nv by (simp add: is_verse_id_def verse_id_of_def v)
qed

lemma parse_ref_part_verse_ids:
  assumes "parse_ref_part p = Inr ids" and "i \<in> set ids"
  shows "is_verse_id i"
proof (cases "ref_match p")
  case None
  with assms show ?thesis by (simp add: parse_ref_part_no_match)
next
  case (Some g)
  obtain g1 g2 g3 g4 where g: "g = (g1, g2, g3, g4)" by (cases g)
  from parse_ref_part_match[OF Some[unfolded g]] obtain b ch sv where
    ch: "is_number ch" and
    eq: "parse_ref_part p =
             (case book_name_to_abbrev b of
                None \<Rightarrow> Inr []
              | Some ab \<Rightarrow>
                  if length sv \<le> int_max_str_digits \<and>
                     (case g4 of None \<Rightarrow> True | Some ev \<Rightarrow> length ev \<le> int_max_str_digits)
                  then Inr (map (verse_id_of ab ch)
                         [int (digits_value sv) ..
                          (case g4 of None \<Rightarrow> int (digits_value sv)
                                    | Some ev \<Rightarrow> int (digits_value ev))])
                  else Inl ValueError)"
    by blast
  show ?thesis
  proof (cases "book_name_to_abbrev b")
    case None
    with eq assms show ?thesis by simp
  next
    case (Some ab)
    with eq assms have "i \<in> verse_id_of ab ch ` {int (digits_value sv)..}"
      by (auto split: if_splits)
    then obtain n where "int (digits_value sv) \<le> n" and i: "i = verse_id_of ab ch n"
      by auto
    then have n: "0 \<le> n" by linarith
    show ?thesis unfolding i
      by (rule verse_id_of_is_verse_id[OF book_name_to_abbrev_registry[OF Some] ch n])
  qed
qed

lemma parse_verse_reference_verse_ids:
  assumes "parse_verse_reference s = Inr ids" and "i \<in> set ids"
  shows "is_verse_id i"
proof -
  from parse_verse_reference_ids[OF assms] obtain p ids' where
    "parse_ref_part p = Inr ids'" and "i \<in> set ids'" by blast
  then show ?thesis by (rule parse_ref_part_verse_ids)
qed

lemma is_note_id_fmt: "is_note_id (''N'' @ zero_pad 4 n)"
  by (simp add: is_note_id_def zero_pad_digits zero_pad_length)

lemma note_id_not_verse_id:
  assumes "is_note_id s"
  shows "\<not> is_verse_id s"
proof
  assume v: "is_verse_id s"
  from assms obtain c ds where s: "s = c # ds" and ds: "list_all is_digit ds"
    by (auto simp: is_note_id_def split: list.splits)
  have "filter (\<lambda>c. c = CHR ''.'') ds = []"
    using ds by (auto simp: filter_empty_conv list_all_iff dest: digit_not_special)
  then have "length (split_char CHR ''.'' s) \<le> 2"
    unfolding length_split_char s by simp
  moreover from v have "length (split_char CHR ''.'' s) = 3"
    by (auto simp: is_verse_id_def split: list.splits)
  ultimately show False by simp
qed

section \<open>The edges of the extractor\<close>

lemma cross_refs_loop_edges:
  assumes "x \<in> set (fst (cross_refs_loop note_id cues xs))"
  shows "x \<in> set xs \<or>
         (\<exists>m ids t. parse_verse_reference m = Inr ids \<and> t \<in> set ids \<and> x = new_cross_ref note_id t)"
  using assms
proof (induction cues arbitrary: xs)
  case Nil
  then show ?case by simp
next
  case (Cons m cues)
  show ?case
  proof (cases "parse_verse_reference m")
    case (Inl e)
    with Cons.prems show ?thesis by simp
  next
    case (Inr ids)
    with Cons.prems
    have "x \<in> set (fst (cross_refs_loop note_id cues (xs @ map (new_cross_ref note_id) ids)))"
      by simp
    from Cons.IH[OF this] Inr show ?thesis by auto
  qed
qed

lemma new_cross_ref_edge:
  assumes "is_note_id note_id" and "is_verse_id target_id"
  shows "note_to_verse_edge (new_cross_ref note_id target_id)"
  using assms by (simp add: note_to_verse_edge_def new_cross_ref_def)

lemma extract_cross_refs_edges:
  assumes "x \<in> set (fst (extract_cross_refs_from_note note_id note_text xs))"
  shows "x \<in> set xs \<or> (\<exists>t. is_verse_id t \<and> x = new_cross_ref note_id t)"
proof -
  from assms have "x \<in> set xs \<or>
      (\<exists>m ids t. parse_verse_reference m = Inr ids \<and> t \<in> set ids \<and> x = new_cross_ref note_id t)"
    unfolding extract_cross_refs_from_note_def by (rule cross_refs_loop_edges)
  then show ?thesis
  proof
    assume "x \<in> set xs" then show ?thesis by simp
  next
    assume "\<exists>m ids t. parse_verse_reference m = Inr ids \<and> t \<in> set ids \<and>
              x = new_cross_ref note_id t"
    then obtain m ids t where ids: "parse_verse_reference m = Inr ids" and t: "t \<in> set ids"
      and x: "x = new_cross_ref note_id t" by blast
    from parse_verse_reference_verse_ids[OF ids t] have "is_verse_id t" .
    with x show ?thesis by blast
  qed
qed

lemma add_note_row_edges:
  assumes inv: "\<forall>x\<in>set (cross_refs st).
           note_to_verse_edge x \<and> cr_source_id x \<in> fst ` set (notes st)"
  shows "\<forall>x\<in>set (cross_refs (add_note_row st ref_str note_text category kws)).
           note_to_verse_edge x \<and>
           cr_source_id x \<in> fst ` set (notes (add_note_row st ref_str note_text category kws))"
proof (cases "parse_verse_reference ref_str")
  case (Inl e)
  then show ?thesis using inv by (simp add: add_note_row_error)
next
  case refs: (Inr refs)
  show ?thesis
  proof (cases "refs = []")
    case True
    then show ?thesis using refs inv by (simp add: add_note_row_empty)
  next
    case False
    let ?nid = "''N'' @ zero_pad 4 (note_counter st)"
    let ?st = "add_note_row st ref_str note_text category kws"
    have cr: "cross_refs ?st = fst (extract_cross_refs_from_note ?nid note_text (cross_refs st))"
      by (simp add: add_note_row_some[OF refs False])
    have keys: "fst ` set (notes ?st) = insert ?nid (fst ` set (notes st))"
      by (simp add: add_note_row_some[OF refs False] dom_update)
    show ?thesis
    proof
      fix x assume "x \<in> set (cross_refs ?st)"
      then have "x \<in> set (cross_refs st) \<or> (\<exists>t. is_verse_id t \<and> x = new_cross_ref ?nid t)"
        unfolding cr by (rule extract_cross_refs_edges)
      then show "note_to_verse_edge x \<and> cr_source_id x \<in> fst ` set (notes ?st)"
      proof
        assume "x \<in> set (cross_refs st)"
        then show ?thesis using inv keys by blast
      next
        assume "\<exists>t. is_verse_id t \<and> x = new_cross_ref ?nid t"
        then obtain t where t: "is_verse_id t" and x: "x = new_cross_ref ?nid t" by blast
        have "note_to_verse_edge x" unfolding x
          by (rule new_cross_ref_edge[OF is_note_id_fmt t])
        moreover have "cr_source_id x = ?nid" by (simp add: x new_cross_ref_def)
        ultimately show ?thesis using keys by simp
      qed
    qed
  qed
qed

lemma parse_notes_line_edges:
  assumes "\<forall>x\<in>set (cross_refs st).
           note_to_verse_edge x \<and> cr_source_id x \<in> fst ` set (notes st)"
  shows "\<forall>x\<in>set (cross_refs (parse_notes_line st row)).
           note_to_verse_edge x \<and> cr_source_id x \<in> fst ` set (notes (parse_notes_line st row))"
proof -
  from parse_notes_line_cases[of st row] show ?thesis
  proof
    assume "parse_notes_line st row = st"
    then show ?thesis using assms by simp
  next
    assume "\<exists>note_text category kws.
      parse_notes_line st row = add_note_row st (row_reference row) note_text category kws"
    then obtain note_text category kws where
      eq: "parse_notes_line st row = add_note_row st (row_reference row) note_text category kws"
      by blast
    show ?thesis unfolding eq by (rule add_note_row_edges[OF assms])
  qed
qed

lemma parse_notes_tsv_edges:
  assumes "\<forall>x\<in>set (cross_refs st).
           note_to_verse_edge x \<and> cr_source_id x \<in> fst ` set (notes st)"
  shows "\<forall>x\<in>set (cross_refs (parse_notes_tsv st rows)).
           note_to_verse_edge x \<and> cr_source_id x \<in> fst ` set (notes (parse_notes_tsv st rows))"
  using assms unfolding parse_notes_tsv_def
proof (induction rows arbitrary: st)
  case Nil
  then show ?case by simp
next
  case (Cons row rows)
  from Cons.IH[OF parse_notes_line_edges[OF Cons.prems]] show ?case by simp
qed

text \<open>
  C4. When the notes file is read into a parser that holds no cross-reference yet, every
  edge of the cross-reference list has confidence 0.8 and type "explanation", its source is
  a note id (the key of a note of the note table) and its target is a verse id; the source
  is no verse id and the target is no note id, so there is no verse-to-verse and no
  note-to-note edge.
\<close>

theorem extracted_edges_note_to_verse:
  assumes "cross_refs st = []"
  shows "\<forall>x\<in>set (cross_refs (parse_notes_tsv st rows)).
           cr_confidence x = 8 / 10 \<and> cr_ref_type x = ''explanation'' \<and>
           is_note_id (cr_source_id x) \<and>
           cr_source_id x \<in> fst ` set (notes (parse_notes_tsv st rows)) \<and>
           is_verse_id (cr_target_id x) \<and>
           \<not> is_verse_id (cr_source_id x) \<and> \<not> is_note_id (cr_target_id x)"
proof
  fix x assume x: "x \<in> set (cross_refs (parse_notes_tsv st rows))"
  have "\<forall>x\<in>set (cross_refs st).
           note_to_verse_edge x \<and> cr_source_id x \<in> fst ` set (notes st)"
    using assms by simp
  from parse_notes_tsv_edges[OF this, of rows] x
  have e: "note_to_verse_edge x" and k: "cr_source_id x \<in> fst ` set (notes (parse_notes_tsv st rows))"
    by blast+
  from e have 1: "cr_confidence x = 8 / 10" "cr_ref_type x = ''explanation''"
    "is_note_id (cr_source_id x)" "is_verse_id (cr_target_id x)"
    by (simp_all add: note_to_verse_edge_def)
  from note_id_not_verse_id[OF 1(3)] have 2: "\<not> is_verse_id (cr_source_id x)" .
  from note_id_not_verse_id[of "cr_target_id x"] 1(4) have 3: "\<not> is_note_id (cr_target_id x)"
    by blast
  show "cr_confidence x = 8 / 10 \<and> cr_ref_type x = ''explanation'' \<and>
           is_note_id (cr_source_id x) \<and>
           cr_source_id x \<in> fst ` set (notes (parse_notes_tsv st rows)) \<and>
           is_verse_id (cr_target_id x) \<and>
           \<not> is_verse_id (cr_source_id x) \<and> \<not> is_note_id (cr_target_id x)"
    using 1 2 3 k by simp
qed

theorem extracted_edges_note_to_verse_witness:
  "cross_refs scenario_store = [] \<and>
   cross_refs (parse_notes_tsv scenario_store [scenario_row]) = [new_cross_ref ''N0001'' ''JOH.1.1''] \<and>
   cr_confidence (new_cross_ref ''N0001'' ''JOH.1.1'') = 8 / 10 \<and>
   cr_ref_type (new_cross_ref ''N0001'' ''JOH.1.1'') = ''explanation'' \<and>
   is_note_id ''N0001'' \<and> is_verse_id ''JOH.1.1'' \<and>
   \<not> is_verse_id ''N0001'' \<and> \<not> is_note_id ''JOH.1.1''"
proof -
  have h: "cross_refs scenario_store = []"
    by (simp add: scenario_store_def init_parser_def)
  have c: "cross_refs (parse_notes_tsv scenario_store [scenario_row]) =
             [new_cross_ref ''N0001'' ''JOH.1.1'']"
    unfolding scenario_run by simp
  from extracted_edges_note_to_verse[OF h, of "[scenario_row]"]
  show ?thesis unfolding c using h by (simp add: new_cross_ref_def)
qed

section \<open>Links to verses that the verse table does not hold\<close>

lemma link_note_keys: "map fst (link_note note_id vs verse_id) = map fst vs"
proof (cases "map_of vs verse_id")
  case None
  then show ?thesis by (simp add: link_note_def)
next
  case (Some v)
  then have "verse_id \<in> set (map fst vs)" by (metis map_of_eq_None_iff option.distinct(1) set_map)
  then show ?thesis using Some by (simp add: link_note_def update_keys)
qed

lemma foldl_link_note_keys: "map fst (foldl (link_note note_id) vs verse_refs) = map fst vs"
  by (induction verse_refs arbitrary: vs) (simp_all add: link_note_keys)

lemma map_of_link_note:
  "map_of (link_note note_id vs verse_id) k =
     (if k = verse_id
      then map_option (\<lambda>v. v\<lparr>bv_note_ids := bv_note_ids v @ [note_id]\<rparr>) (map_of vs k)
      else map_of vs k)"
  by (cases "map_of vs verse_id") (auto simp: link_note_def update_conv')

lemma map_of_foldl_link_note:
  "map_of (foldl (link_note note_id) vs verse_refs) k =
     map_option (\<lambda>v. v\<lparr>bv_note_ids := bv_note_ids v @ replicate (count_list verse_refs k) note_id\<rparr>)
       (map_of vs k)"
proof (induction verse_refs arbitrary: vs)
  case Nil
  then show ?case by (cases "map_of vs k") simp_all
next
  case (Cons r rs)
  show ?case
  proof (cases "map_of vs k")
    case None
    then show ?thesis by (auto simp: Cons map_of_link_note)
  next
    case (Some v)
    show ?thesis
    proof (cases "k = r")
      case True
      have "map_of (foldl (link_note note_id) (link_note note_id vs r) rs) k =
              map_option (\<lambda>v. v\<lparr>bv_note_ids := bv_note_ids v @
                  replicate (count_list rs k) note_id\<rparr>) (map_of (link_note note_id vs r) k)"
        by (rule Cons)
      then show ?thesis using Some True by (simp add: map_of_link_note)
    next
      case False
      then show ?thesis using Some by (simp add: Cons map_of_link_note)
    qed
  qed
qed

lemma add_note_row_verse_keys:
  "map fst (verses (add_note_row st ref_str note_text category kws)) = map fst (verses st)"
proof (cases "parse_verse_reference ref_str")
  case (Inl e)
  then show ?thesis by (simp add: add_note_row_error)
next
  case refs: (Inr refs)
  show ?thesis
  proof (cases "refs = []")
    case True
    then show ?thesis using refs by (simp add: add_note_row_empty)
  next
    case False
    show ?thesis by (simp add: add_note_row_some[OF refs False] foldl_link_note_keys)
  qed
qed

lemma parse_notes_line_verse_keys:
  "map fst (verses (parse_notes_line st row)) = map fst (verses st)"
  using parse_notes_line_cases[of st row] add_note_row_verse_keys by auto

lemma parse_notes_tsv_verse_keys:
  "map fst (verses (parse_notes_tsv st rows)) = map fst (verses st)"
  unfolding parse_notes_tsv_def
  by (induction rows arbitrary: st) (simp_all add: parse_notes_line_verse_keys)

lemma parse_Genesis_99_1: "parse_verse_reference ''Genesis 99:1'' = Inr [''GEN.99.1'']"
  by code_simp

lemma Genesis_chapter_count: "map_of BOOK_CHAPTER_COUNTS ''GEN'' = Some 50"
  by (simp add: BOOK_CHAPTER_COUNTS_def)

text \<open>
  C10. The reference parser does not consult the chapter counts of the registry: the
  citation "Genesis 99:1" yields the verse id GEN.99.1 although Genesis has 50 chapters.
  The note that a row creates is stored under the next note id with exactly the verse ids
  that the reference parser returned; in the verse table each entry receives the note id
  once for each occurrence of its key among those verse ids, and reading a notes file never
  adds a key to the verse table. So a note may link verse ids that are not in the table.
\<close>

theorem notes_link_unchecked_verse_ids:
  "parse_verse_reference ''Genesis 99:1'' = Inr [''GEN.99.1''] \<and>
   map_of BOOK_CHAPTER_COUNTS ''GEN'' = Some 50 \<and>
   (parse_verse_reference ref_str = Inr verse_refs \<and> verse_refs \<noteq> [] \<longrightarrow>
      map_option sn_linked_verses
        (map_of (notes (add_note_row st ref_str note_text category kws))
           (''N'' @ zero_pad 4 (note_counter st))) = Some verse_refs \<and>
      map_of (verses (add_note_row st ref_str note_text category kws)) k =
        map_option (\<lambda>v. v\<lparr>bv_note_ids := bv_note_ids v @
               replicate (count_list verse_refs k) (''N'' @ zero_pad 4 (note_counter st))\<rparr>)
          (map_of (verses st) k)) \<and>
   map fst (verses (parse_notes_tsv st rows)) = map fst (verses st)"
proof (intro conjI impI)
  show "parse_verse_reference ''Genesis 99:1'' = Inr [''GEN.99.1'']"
    by (rule parse_Genesis_99_1)
  show "map_of BOOK_CHAPTER_COUNTS ''GEN'' = Some 50"
    by (rule Genesis_chapter_count)
  show "map fst (verses (parse_notes_tsv st rows)) = map fst (verses st)"
    by (rule parse_notes_tsv_verse_keys)
next
  assume a: "parse_verse_reference ref_str = Inr verse_refs \<and> verse_refs \<noteq> []"
  then have refs: "parse_verse_reference ref_str = Inr verse_refs" and ne: "verse_refs \<noteq> []"
    by simp_all
  show "map_option sn_linked_verses
        (map_of (notes (add_note_row st ref_str note_text category kws))
           (''N'' @ zero_pad 4 (note_counter st))) = Some verse_refs"
    by (simp add: add_note_row_some[OF refs ne] update_conv' new_note_def)
  show "map_of (verses (add_note_row st ref_str note_text category kws)) k =
        map_option (\<lambda>v. v\<lparr>bv_note_ids := bv_note_ids v @
               replicate (count_list verse_refs k) (''N'' @ zero_pad 4 (note_counter st))\<rparr>)
          (map_of (verses st) k)"
    by (simp add: add_note_row_some[OF refs ne] map_of_foldl_link_note)
qed

lemma chapter99_row_line:
  "parse_notes_line scenario_store chapter99_row =
     add_note_row scenario_store ''Genesis 99:1'' ''No such chapter'' ''Test'' []"
proof -
  have s: "strip chapter99_row =
      ''Genesis 99:1'' @ [CHR 0x09] @ ''No such chapter'' @ [CHR 0x09] @ ''Test''"
    by code_simp
  have c: "split_char CHR 0x09 (strip chapter99_row) =
      [''Genesis 99:1'', ''No such chapter'', ''Test'']"
    by code_simp
  have t: "strip ''Genesis 99:1'' = ''Genesis 99:1''"
    "strip ''No such chapter'' = ''No such chapter''" "strip ''Test'' = ''Test''"
    by code_simp+
  show ?thesis
    unfolding parse_notes_line_def Let_def c
    by (simp add: s t)
qed

theorem notes_link_unchecked_verse_ids_witness:
  "parse_verse_reference ''Genesis 99:1'' = Inr [''GEN.99.1''] \<and>
   [''GEN.99.1''] \<noteq> ([] :: string list) \<and>
   map_option sn_linked_verses
     (map_of (notes (parse_notes_tsv scenario_store [chapter99_row])) ''N0001'') =
       Some [''GEN.99.1''] \<and>
   map fst (verses (parse_notes_tsv scenario_store [chapter99_row])) = [''GEN.1.1''] \<and>
   ''GEN.99.1'' \<notin> set (map fst (verses (parse_notes_tsv scenario_store [chapter99_row])))"
proof -
  have run: "parse_notes_tsv scenario_store [chapter99_row] =
      add_note_row scenario_store ''Genesis 99:1'' ''No such chapter'' ''Test'' []"
    by (simp add: parse_notes_tsv_def chapter99_row_line)
  have cnt: "''N'' @ zero_pad 4 (note_counter scenario_store) = ''N0001''"
    by (simp add: scenario_store_def init_parser_def zero_pad_4_1)
  have keys: "map fst (verses scenario_store) = [''GEN.1.1'']"
    by (simp add: scenario_store_def init_parser_def)
  from notes_link_unchecked_verse_ids[of "''Genesis 99:1''" "[''GEN.99.1'']" scenario_store
      "''No such chapter''" "''Test''" "[]" "''GEN.1.1''" "[chapter99_row]"]
  show ?thesis unfolding run cnt keys
    by (simp add: add_note_row_verse_keys keys)
qed

section \<open>Theme tags of a note\<close>

lemma occurs_as_word_sublist: "occurs_as_word prev w s \<Longrightarrow> sublist w s"
proof (induction s arbitrary: prev)
  case Nil
  then show ?case by simp
next
  case (Cons c cs)
  then show ?case by (auto simp: sublist_Cons_right)
qed

lemma occurs_as_word_boundary:
  assumes "occurs_as_word prev w s" and "w \<noteq> []" and "is_word (hd w)"
  shows "search_boundary prev w s"
  using assms(1)
proof (induction s arbitrary: prev)
  case Nil
  then show ?case by simp
next
  case (Cons c cs)
  from Cons.prems have "(\<not> opt_word prev \<and> prefix w (c # cs)) \<or> occurs_as_word (Some c) w cs"
    by auto
  then show ?case
  proof
    assume a: "\<not> opt_word prev \<and> prefix w (c # cs)"
    then have "hd w = c" using assms(2) by (cases w) auto
    then have "is_word c" using assms(3) by simp
    then show ?thesis using a by simp
  next
    assume "occurs_as_word (Some c) w cs"
    from Cons.IH[OF this] show ?thesis by simp
  qed
qed

lemma theme_names_lower:
  "str_lower ''Grace'' = ''grace''" "str_lower ''Covenants'' = ''covenants''"
  "str_lower ''Covenant Theology'' = ''covenant theology''"
  by code_simp+

lemma extract_themes_mem:
  "theme \<in> set (extract_themes_from_note note_text) \<longleftrightarrow>
     theme \<in> set SCOFIELD_THEMES \<and> theme_matches (str_lower note_text) theme"
  by (simp add: extract_themes_from_note_def)

lemma themes_in_taxonomy:
  "''Grace'' \<in> set SCOFIELD_THEMES" "''Covenants'' \<in> set SCOFIELD_THEMES"
  "''Covenant Theology'' \<in> set SCOFIELD_THEMES"
  by (simp_all add: SCOFIELD_THEMES_def)

lemma covenant_starts_with_word_char: "is_word (hd ''covenant'')"
  by (simp add: is_word_def code_def)

text \<open>
  C9, as amended. A note whose text contains the word "grace" and the word "covenant" is
  tagged with the taxonomy entries "Grace" (its name occurs in the text) and "Covenants"
  (its name without the last character occurs at a word boundary). The entry "Covenant
  Theology" is a tag exactly when the lower-cased text contains "covenant theology", or
  "covenant theolog" at a word boundary.
\<close>

theorem grace_and_covenant_tags:
  assumes "contains_word ''grace'' note_text" and "contains_word ''covenant'' note_text"
  shows "''Grace'' \<in> set (extract_themes_from_note note_text) \<and>
         ''Covenants'' \<in> set (extract_themes_from_note note_text) \<and>
         (''Covenant Theology'' \<in> set (extract_themes_from_note note_text)) =
           (sublist ''covenant theology'' (str_lower note_text) \<or>
            search_boundary None ''covenant theolog'' (str_lower note_text))"
proof (intro conjI)
  from assms(1) have "sublist ''grace'' (str_lower note_text)"
    unfolding contains_word_def by (rule occurs_as_word_sublist)
  then show "''Grace'' \<in> set (extract_themes_from_note note_text)"
    by (simp add: extract_themes_mem themes_in_taxonomy theme_matches_def theme_names_lower)
next
  have "''covenant'' \<noteq> []" by simp
  from occurs_as_word_boundary[OF assms(2)[unfolded contains_word_def] this
      covenant_starts_with_word_char]
  have "search_boundary None ''covenant'' (str_lower note_text)" .
  then show "''Covenants'' \<in> set (extract_themes_from_note note_text)"
    by (simp add: extract_themes_mem themes_in_taxonomy theme_matches_def theme_names_lower)
next
  show "(''Covenant Theology'' \<in> set (extract_themes_from_note note_text)) =
           (sublist ''covenant theology'' (str_lower note_text) \<or>
            search_boundary None ''covenant theolog'' (str_lower note_text))"
    by (simp add: extract_themes_mem themes_in_taxonomy theme_matches_def theme_names_lower)
qed

lemma grace_and_covenant_words:
  "contains_word ''grace'' ''grace and covenant''" "contains_word ''covenant'' ''grace and covenant''"
  by code_simp+

lemma grace_and_covenant_no_theology:
  "\<not> theme_matches (str_lower ''grace and covenant'') ''Covenant Theology''"
  by code_simp

theorem grace_and_covenant_tags_witness:
  "contains_word ''grace'' ''grace and covenant'' \<and>
   contains_word ''covenant'' ''grace and covenant'' \<and>
   ''Grace'' \<in> set (extract_themes_from_note ''grace and covenant'') \<and>
   ''Covenants'' \<in> set (extract_themes_from_note ''grace and covenant'')"
  using grace_and_covenant_tags[OF grace_and_covenant_words] grace_and_covenant_words
  by simp

text \<open>
  C9, as stated, fails: the text "grace and covenant" contains both words, and "Covenant
  Theology" is not among its theme tags.
\<close>

theorem covenant_theology_not_tagged:
  "contains_word ''grace'' ''grace and covenant'' \<and>
   contains_word ''covenant'' ''grace and covenant'' \<and>
   ''Covenant Theology'' \<notin> set (extract_themes_from_note ''grace and covenant'')"
  using grace_and_covenant_words grace_and_covenant_no_theology
  by (simp add: extract_themes_mem)

section \<open>The confidence score of a theme\<close>

text \<open>
  A keyword files its verse under the theme that its title-cased form names; other
  keywords are passed over.
\<close>

lemma keyword_files_verse:
  "verse_themes_step [(''Grace'', [''EPH.2.8''])] keyword_verse =
     [(''Grace'', [''EPH.2.8'', ''ROM.3.24''])]"
  by code_simp

lemma foldl_invariant:
  assumes "P s" and "\<And>s x. P s \<Longrightarrow> P (f s x)"
  shows "P (foldl f s xs)"
  using assms(1) by (induction xs arbitrary: s) (simp_all add: assms(2))

lemma map_of_Some_snd: "map_of al k = Some v \<Longrightarrow> v \<in> snd ` set al"
  by (metis map_of_SomeD snd_conv image_eqI)

lemma link_child_entries:
  assumes "t' \<in> snd ` set (link_child parent_key theme_id idx)"
  shows "\<exists>t\<in>snd ` set idx. \<exists>subs parents.
           t' = t\<lparr>ti_sub_themes := subs, ti_parent_themes := parents\<rparr>"
proof -
  have refl: "\<And>t. t \<in> snd ` set idx \<Longrightarrow> \<exists>u\<in>snd ` set idx. \<exists>subs parents.
           t = u\<lparr>ti_sub_themes := subs, ti_parent_themes := parents\<rparr>"
  proof -
    fix t assume "t \<in> snd ` set idx"
    moreover have "t = t\<lparr>ti_sub_themes := ti_sub_themes t, ti_parent_themes := ti_parent_themes t\<rparr>"
      by simp
    ultimately show "\<exists>u\<in>snd ` set idx. \<exists>subs parents.
           t = u\<lparr>ti_sub_themes := subs, ti_parent_themes := parents\<rparr>" by blast
  qed
  show ?thesis
  proof (cases "map_of idx parent_key")
    case None
    then show ?thesis using assms refl by (simp add: link_child_def)
  next
    case (Some p)
    show ?thesis
    proof (cases "map_of idx theme_id")
      case None
      then show ?thesis using assms refl Some by (simp add: link_child_def)
    next
      case Sc: (Some c)
      let ?c' = "c\<lparr>ti_parent_themes := ti_parent_themes c @ [ti_theme_id p]\<rparr>"
      let ?idx1 = "AList.update theme_id ?c' idx"
      have c_in: "c \<in> snd ` set idx" by (rule map_of_Some_snd[OF Sc])
      have c': "?c' = c\<lparr>ti_sub_themes := ti_sub_themes c,
            ti_parent_themes := ti_parent_themes c @ [ti_theme_id p]\<rparr>" by simp
      have idx1: "\<And>t. t \<in> snd ` set ?idx1 \<Longrightarrow> \<exists>u\<in>snd ` set idx. \<exists>subs parents.
           t = u\<lparr>ti_sub_themes := subs, ti_parent_themes := parents\<rparr>"
      proof -
        fix t assume "t \<in> snd ` set ?idx1"
        then have "t = ?c' \<or> t \<in> snd ` set idx"
          using snd_set_update[of theme_id ?c' idx] by blast
        then show "\<exists>u\<in>snd ` set idx. \<exists>subs parents.
           t = u\<lparr>ti_sub_themes := subs, ti_parent_themes := parents\<rparr>"
          using c_in c' refl by metis
      qed
      obtain p1 where p1: "map_of ?idx1 parent_key = Some p1"
        using Some by (cases "parent_key = theme_id") (simp_all add: update_conv')
      have p1_in: "p1 \<in> snd ` set ?idx1" by (rule map_of_Some_snd[OF p1])
      let ?p' = "p1\<lparr>ti_sub_themes := ti_sub_themes p1 @ [theme_id]\<rparr>"
      have res: "link_child parent_key theme_id idx = AList.update parent_key ?p' ?idx1"
        using Some Sc p1 by (simp add: link_child_def Let_def)
      from assms have "t' = ?p' \<or> t' \<in> snd ` set ?idx1"
        unfolding res using snd_set_update[of parent_key ?p' ?idx1] by blast
      then show ?thesis
      proof
        assume "t' \<in> snd ` set ?idx1"
        then show ?thesis by (rule idx1)
      next
        assume t': "t' = ?p'"
        from idx1[OF p1_in] obtain u subs parents where u: "u \<in> snd ` set idx"
          and "p1 = u\<lparr>ti_sub_themes := subs, ti_parent_themes := parents\<rparr>" by blast
        then have "t' = u\<lparr>ti_sub_themes := subs @ [theme_id], ti_parent_themes := parents\<rparr>"
          using t' by simp
        then show ?thesis using u by blast
      qed
    qed
  qed
qed

lemma link_child_scores_ok:
  assumes "scores_ok idx"
  shows "scores_ok (link_child parent_key theme_id idx)"
  unfolding scores_ok_def
proof
  fix t' assume "t' \<in> snd ` set (link_child parent_key theme_id idx)"
  from link_child_entries[OF this] obtain t subs parents where t: "t \<in> snd ` set idx"
    and t': "t' = t\<lparr>ti_sub_themes := subs, ti_parent_themes := parents\<rparr>" by blast
  from assms t have "ti_confidence_score t = min 1 (of_nat (total_references t) / 100)"
    unfolding scores_ok_def by blast
  then show "ti_confidence_score t' = min 1 (of_nat (total_references t') / 100)"
    by (simp add: t' total_references_def)
qed

lemma link_children_named_invariant:
  assumes step: "\<And>pk k d. P d \<Longrightarrow> P (link_child pk k d)" and "P idx"
  shows "P (link_children_named parent_key child_name idx)"
proof -
  have "P (foldl (\<lambda>d theme_id.
              (case map_of d theme_id of
                 None \<Rightarrow> d
               | Some t \<Rightarrow> if ti_name t = child_name then link_child parent_key theme_id d else d))
          d ks)" if "P d" for d and ks :: "string list"
    using that
  proof (induction ks arbitrary: d)
    case Nil
    then show ?case by simp
  next
    case (Cons k ks)
    have "P (case map_of d k of None \<Rightarrow> d
             | Some t \<Rightarrow> if ti_name t = child_name then link_child parent_key k d else d)"
      using Cons.prems step[OF Cons.prems, of parent_key k] by (simp split: option.splits)
    from Cons.IH[OF this] show ?case by simp
  qed
  from this[OF assms(2)] show ?thesis by (simp add: link_children_named_def)
qed

lemma relate_parent_invariant:
  assumes step: "\<And>pk k d. P d \<Longrightarrow> P (link_child pk k d)" and "P idx"
  shows "P (relate_parent idx entry)"
proof -
  obtain parent_name child_names where e: "entry = (parent_name, child_names)" by (cases entry)
  have loop: "P (foldl (\<lambda>d child_name. link_children_named pk child_name d) d cns)"
    if "P d" for d pk and cns :: "string list"
    using that
  proof (induction cns arbitrary: d)
    case Nil
    then show ?case by simp
  next
    case (Cons cn cns)
    from Cons.IH[OF link_children_named_invariant[of P, OF step Cons.prems]]
    show ?case by simp
  qed
  show ?thesis
  proof (cases "find_theme parent_name idx")
    case None
    then show ?thesis using assms(2) e by (simp add: relate_parent_def)
  next
    case (Some pt)
    obtain pk pth where pt: "pt = (pk, pth)" by (cases pt)
    from loop[OF assms(2), of pk child_names] show ?thesis
      using Some pt e by (simp add: relate_parent_def)
  qed
qed

lemma build_theme_relationships_invariant:
  assumes step: "\<And>pk k d. P d \<Longrightarrow> P (link_child pk k d)" and "P (thematic_index st)"
  shows "P (thematic_index (build_theme_relationships st))"
proof -
  have "P (foldl relate_parent d es)" if "P d" for d and es :: "(string \<times> string list) list"
    using that
  proof (induction es arbitrary: d)
    case Nil
    then show ?case by simp
  next
    case (Cons e es)
    from Cons.IH[OF relate_parent_invariant[of P, OF step Cons.prems]] show ?case by simp
  qed
  from this[OF assms(2)] show ?thesis by (simp add: build_theme_relationships_def)
qed

lemma add_theme_index:
  "thematic_index (add_theme enum theme_to_verses st (theme_name, note_ids)) =
     AList.update (''T'' @ zero_pad 3 (theme_counter st))
       \<lparr>ti_theme_id = ''T'' @ zero_pad 3 (theme_counter st), ti_name = theme_name,
        ti_description = ''References to '' @ theme_name @ '' in Scofield notes'',
        ti_note_ids = note_ids,
        ti_verse_ids = enum (case map_of theme_to_verses theme_name of None \<Rightarrow> [] | Some vs \<Rightarrow> vs),
        ti_categories = [], ti_sub_themes = [], ti_parent_themes = [],
        ti_confidence_score = min 1 (of_nat (length note_ids +
           length (enum (case map_of theme_to_verses theme_name of None \<Rightarrow> [] | Some vs \<Rightarrow> vs)))
             / 100)\<rparr>
       (thematic_index st)"
  by (simp add: add_theme_def Let_def)

lemma add_theme_counter:
  "theme_counter (add_theme enum theme_to_verses st entry) = Suc (theme_counter st)"
  by (cases entry) (simp add: add_theme_def Let_def)

lemma scores_ok_update:
  assumes "scores_ok idx"
    and "ti_confidence_score t = min 1 (of_nat (total_references t) / 100)"
  shows "scores_ok (AList.update k t idx)"
  unfolding scores_ok_def
proof
  fix u assume "u \<in> snd ` set (AList.update k t idx)"
  then have "u = t \<or> u \<in> snd ` set idx"
    using snd_set_update[of k t idx] by blast
  then show "ti_confidence_score u = min 1 (of_nat (total_references u) / 100)"
    using assms unfolding scores_ok_def by blast
qed

lemma add_theme_scores_ok:
  assumes "scores_ok (thematic_index st)"
  shows "scores_ok (thematic_index (add_theme enum theme_to_verses st entry))"
proof -
  obtain theme_name note_ids where e: "entry = (theme_name, note_ids)" by (cases entry)
  show ?thesis
    unfolding e add_theme_index
    by (rule scores_ok_update[OF assms]) (simp add: total_references_def)
qed

lemma build_thematic_network_unfold:
  "\<exists>t2n t2v. build_thematic_network enum st =
     build_theme_relationships (foldl (add_theme enum t2v) st t2n)"
  by (cases "foldl note_themes_step ([], []) (notes st)")
     (auto simp: build_thematic_network_def)

lemma build_thematic_network_scores_ok:
  assumes "scores_ok (thematic_index st)"
  shows "scores_ok (thematic_index (build_thematic_network enum st))"
proof -
  obtain t2n t2v where b: "build_thematic_network enum st =
     build_theme_relationships (foldl (add_theme enum t2v) st t2n)"
    using build_thematic_network_unfold by blast
  have "scores_ok (thematic_index (foldl (add_theme enum t2v) s es))"
    if "scores_ok (thematic_index s)" for s and es :: "(string \<times> string list) list"
    using that
  proof (induction es arbitrary: s)
    case Nil
    then show ?case by simp
  next
    case (Cons e es)
    from Cons.IH[OF add_theme_scores_ok[OF Cons.prems]] show ?case by simp
  qed
  from build_theme_relationships_invariant[of scores_ok, OF link_child_scores_ok this[OF assms]]
  show ?thesis unfolding b .
qed

lemma min_confidence_mono:
  fixes m n :: nat
  assumes "m \<le> n"
  shows "min (1::rat) (of_nat m / 100) \<le> min 1 (of_nat n / 100)"
proof -
  have "(of_nat m :: rat) / 100 \<le> of_nat n / 100" using assms by (simp add: divide_right_mono)
  then show ?thesis by (simp add: min_le_iff_disj)
qed

text \<open>
  C6. After the thematic indexer has run on a parser with an empty index, every theme of
  the index has the confidence score \<open>min 1 ((noteCount + verseCount) / 100)\<close>, where the
  counts are the lengths of its note-id and verse-id lists; hence no score exceeds 1, and of
  two themes the one with the larger sum of counts has the larger or an equal score.
\<close>

theorem theme_confidence_saturating:
  assumes "thematic_index st = []"
  shows "\<forall>t\<in>snd ` set (thematic_index (build_thematic_network enum st)).
           ti_confidence_score t =
             min 1 (of_nat (length (ti_note_ids t) + length (ti_verse_ids t)) / 100) \<and>
           ti_confidence_score t \<le> 1 \<and>
           (\<forall>u\<in>snd ` set (thematic_index (build_thematic_network enum st)).
              length (ti_note_ids t) + length (ti_verse_ids t) \<le>
                length (ti_note_ids u) + length (ti_verse_ids u) \<longrightarrow>
              ti_confidence_score t \<le> ti_confidence_score u)"
proof -
  have "scores_ok (thematic_index st)" by (simp add: assms scores_ok_def)
  from build_thematic_network_scores_ok[OF this, of enum]
  have all: "\<forall>t\<in>snd ` set (thematic_index (build_thematic_network enum st)).
      ti_confidence_score t =
        min 1 (of_nat (length (ti_note_ids t) + length (ti_verse_ids t)) / 100)"
    by (simp add: scores_ok_def total_references_def)
  show ?thesis
  proof (intro ballI conjI impI)
    fix t assume t: "t \<in> snd ` set (thematic_index (build_thematic_network enum st))"
    show eq: "ti_confidence_score t =
        min 1 (of_nat (length (ti_note_ids t) + length (ti_verse_ids t)) / 100)"
      using all t by blast
    show "ti_confidence_score t \<le> 1" unfolding eq by simp
    fix u assume u: "u \<in> snd ` set (thematic_index (build_thematic_network enum st))"
      and le: "length (ti_note_ids t) + length (ti_verse_ids t) \<le>
                length (ti_note_ids u) + length (ti_verse_ids u)"
    have "ti_confidence_score u =
        min 1 (of_nat (length (ti_note_ids u) + length (ti_verse_ids u)) / 100)"
      using all u by blast
    then show "ti_confidence_score t \<le> ti_confidence_score u"
      unfolding eq using min_confidence_mono[OF le] by simp
  qed
qed

lemma hierarchy_example_index:
  "thematic_index (build_thematic_network remdups hierarchy_example) =
    [(''T001'', \<lparr>ti_theme_id = ''T001'', ti_name = ''Salvation'',
        ti_description = ''References to Salvation in Scofield notes'',
        ti_note_ids = [''N0001''], ti_verse_ids = [''ROM.1.16''], ti_categories = [],
        ti_sub_themes = [''T002''], ti_parent_themes = [], ti_confidence_score = 2 / 100\<rparr>),
     (''T002'', \<lparr>ti_theme_id = ''T002'', ti_name = ''Justification'',
        ti_description = ''References to Justification in Scofield notes'',
        ti_note_ids = [''N0002''], ti_verse_ids = [''ROM.5.1''], ti_categories = [],
        ti_sub_themes = [], ti_parent_themes = [''T001''], ti_confidence_score = 2 / 100\<rparr>)]"
  by code_simp

lemma hierarchy_example_fresh: "thematic_index hierarchy_example = []"
  by (simp add: hierarchy_example_def init_parser_def)

theorem theme_confidence_saturating_witness:
  "thematic_index hierarchy_example = [] \<and>
   map (\<lambda>(k, t). (ti_name t, length (ti_note_ids t), length (ti_verse_ids t), ti_confidence_score t))
     (thematic_index (build_thematic_network remdups hierarchy_example)) =
     [(''Salvation'', 1, 1, 2 / 100), (''Justification'', 1, 1, 2 / 100)] \<and>
   list_all (\<lambda>t. ti_confidence_score t =
                   min 1 (of_nat (length (ti_note_ids t) + length (ti_verse_ids t)) / 100) \<and>
                 ti_confidence_score t \<le> 1)
     (map snd (thematic_index (build_thematic_network remdups hierarchy_example)))"
proof -
  from theme_confidence_saturating[OF hierarchy_example_fresh, of remdups]
  have "list_all (\<lambda>t. ti_confidence_score t =
                   min 1 (of_nat (length (ti_note_ids t) + length (ti_verse_ids t)) / 100) \<and>
                 ti_confidence_score t \<le> 1)
     (map snd (thematic_index (build_thematic_network remdups hierarchy_example)))"
    unfolding list_all_iff by simp
  moreover have "map (\<lambda>(k, t). (ti_name t, length (ti_note_ids t), length (ti_verse_ids t), ti_confidence_score t))
     (thematic_index (build_thematic_network remdups hierarchy_example)) =
     [(''Salvation'', 1, 1, 2 / 100), (''Justification'', 1, 1, 2 / 100)]"
    unfolding hierarchy_example_index by simp
  ultimately show ?thesis using hierarchy_example_fresh by blast
qed

section \<open>The hierarchy of themes\<close>

lemma update_by_key:
  assumes "distinct (map fst al)" and "map_of al k = Some v0"
  shows "AList.update k (f v0) al = map (\<lambda>(k', t). (k', if k' = k then f t else t)) al"
  using assms
proof (induction al)
  case Nil
  then show ?case by simp
next
  case (Cons e al)
  obtain k' t where e: "e = (k', t)" by (cases e)
  show ?case
  proof (cases "k' = k")
    case True
    with Cons.prems e have v0: "t = v0" and notin: "k \<notin> fst ` set al" by auto
    have "map (\<lambda>(k', t). (k', if k' = k then f t else t)) al = al"
      using notin by (induction al) auto
    then show ?thesis using True e v0 by simp
  next
    case False
    with Cons.prems e have "distinct (map fst al)" "map_of al k = Some v0" by auto
    from Cons.IH[OF this] show ?thesis using False e by simp
  qed
qed

lemma map_of_map_keyed:
  "map_of (map (\<lambda>(k, t). (k, g k t)) al) k = map_option (g k) (map_of al k)"
  by (induction al) auto

lemma map_fst_map_keyed: "map fst (map (\<lambda>(k, t). (k, g k t)) al) = map fst al"
  by (induction al) auto

lemma index_wf_id: "index_wf idx \<Longrightarrow> map_of idx k = Some t \<Longrightarrow> ti_theme_id t = k"
  by (auto simp: index_wf_def dest: map_of_SomeD)

lemma link_child_map:
  assumes wf: "index_wf idx" and p: "map_of idx pk = Some p" and c: "map_of idx ck = Some c"
  shows "link_child pk ck idx = map (\<lambda>(k, t). (k, add_link pk ck k t)) idx"
proof -
  let ?f = "\<lambda>t. t\<lparr>ti_parent_themes := ti_parent_themes t @ [pk]\<rparr>"
  let ?g = "\<lambda>t. t\<lparr>ti_sub_themes := ti_sub_themes t @ [ck]\<rparr>"
  let ?idx1 = "map (\<lambda>(k, t). (k, if k = ck then ?f t else t)) idx"
  have d: "distinct (map fst idx)" using wf by (simp add: index_wf_def)
  have pid: "ti_theme_id p = pk" by (rule index_wf_id[OF wf p])
  have 1: "AList.update ck (?f c) idx = ?idx1"
    by (rule update_by_key[OF d c])
  have d1: "distinct (map fst ?idx1)" using d by (simp only: map_fst_map_keyed)
  have p1: "map_of ?idx1 pk = Some (if pk = ck then ?f p else p)"
    using p by (simp add: map_of_map_keyed)
  have 2: "AList.update pk (?g (if pk = ck then ?f p else p)) ?idx1 =
           map (\<lambda>(k, t). (k, if k = pk then ?g t else t)) ?idx1"
    by (rule update_by_key[OF d1 p1])
  have 3: "map (\<lambda>(k, t). (k, if k = pk then ?g t else t)) ?idx1 =
           map (\<lambda>(k, t). (k, add_link pk ck k t)) idx"
    by (auto simp: add_link_def)
  have "link_child pk ck idx =
          AList.update pk (?g (if pk = ck then ?f p else p)) (AList.update ck (?f c) idx)"
    using p c p1 by (simp add: link_child_def Let_def pid 1)
  then show ?thesis by (simp only: 1 2 3)
qed

lemma add_link_index_wf:
  assumes "index_wf idx"
  shows "index_wf (map (\<lambda>(k, t). (k, add_link pk ck k t)) idx)"
proof -
  have "distinct (map fst (map (\<lambda>(k, t). (k, add_link pk ck k t)) idx))"
    using assms by (simp only: map_fst_map_keyed index_wf_def)
  moreover have "\<forall>(k, t) \<in> set (map (\<lambda>(k, t). (k, add_link pk ck k t)) idx). ti_theme_id t = k"
    using assms by (auto simp: index_wf_def add_link_def)
  ultimately show ?thesis by (simp only: index_wf_def)
qed

lemma add_link_symmetric:
  assumes wf: "index_wf idx" and sym: "links_symmetric idx"
  shows "links_symmetric (map (\<lambda>(k, t). (k, add_link pk ck k t)) idx)"
  unfolding links_symmetric_def
proof (intro ballI)
  fix a' b'
  assume "a' \<in> snd ` set (map (\<lambda>(k, t). (k, add_link pk ck k t)) idx)"
    and "b' \<in> snd ` set (map (\<lambda>(k, t). (k, add_link pk ck k t)) idx)"
  then obtain ka a kb b where a: "(ka, a) \<in> set idx" "a' = add_link pk ck ka a"
    and b: "(kb, b) \<in> set idx" "b' = add_link pk ck kb b"
    by auto
  from wf a(1) b(1) have ids: "ti_theme_id a = ka" "ti_theme_id b = kb"
    by (auto simp: index_wf_def)
  from sym a(1) b(1) have old: "(kb \<in> set (ti_sub_themes a)) = (ka \<in> set (ti_parent_themes b))"
    unfolding links_symmetric_def using ids by force
  show "(ti_theme_id b' \<in> set (ti_sub_themes a')) = (ti_theme_id a' \<in> set (ti_parent_themes b'))"
    using old ids by (auto simp: a(2) b(2) add_link_def)
qed

lemma link_child_invariant:
  assumes "index_wf idx \<and> links_symmetric idx"
  shows "index_wf (link_child pk ck idx) \<and> links_symmetric (link_child pk ck idx)"
proof (cases "map_of idx pk")
  case None
  then show ?thesis using assms by (simp add: link_child_def)
next
  case (Some p)
  show ?thesis
  proof (cases "map_of idx ck")
    case None
    then show ?thesis using assms Some by (simp add: link_child_def)
  next
    case Sc: (Some c)
    from assms have wf: "index_wf idx" and sym: "links_symmetric idx" by simp_all
    show ?thesis
      unfolding link_child_map[OF wf Some Sc]
      using add_link_index_wf[OF wf] add_link_symmetric[OF wf sym] by simp
  qed
qed

lemma update_new_key: "k \<notin> fst ` set al \<Longrightarrow> AList.update k v al = al @ [(k, v)]"
  by (induction al) auto

lemma add_theme_fresh:
  assumes wf: "index_wf (thematic_index s)"
    and below: "\<forall>k\<in>fst ` set (thematic_index s). \<exists>c<theme_counter s. k = ''T'' @ zero_pad 3 c"
    and empty: "\<forall>t\<in>snd ` set (thematic_index s). ti_sub_themes t = [] \<and> ti_parent_themes t = []"
  shows "index_wf (thematic_index (add_theme enum t2v s entry)) \<and>
         (\<forall>k\<in>fst ` set (thematic_index (add_theme enum t2v s entry)).
            \<exists>c<theme_counter (add_theme enum t2v s entry). k = ''T'' @ zero_pad 3 c) \<and>
         (\<forall>t\<in>snd ` set (thematic_index (add_theme enum t2v s entry)).
            ti_sub_themes t = [] \<and> ti_parent_themes t = [])"
proof -
  obtain theme_name note_ids where e: "entry = (theme_name, note_ids)" by (cases entry)
  let ?k = "''T'' @ zero_pad 3 (theme_counter s)"
  have new: "?k \<notin> fst ` set (thematic_index s)"
  proof
    assume "?k \<in> fst ` set (thematic_index s)"
    with below obtain c where "c < theme_counter s" and "?k = ''T'' @ zero_pad 3 c" by blast
    then show False using zero_pad_inj[of 3 "theme_counter s" c] by simp
  qed
  obtain v where idx: "thematic_index (add_theme enum t2v s entry) = thematic_index s @ [(?k, v)]"
    and v: "ti_theme_id v = ?k" "ti_sub_themes v = []" "ti_parent_themes v = []"
    unfolding e add_theme_index update_new_key[OF new] by simp
  have 1: "index_wf (thematic_index s @ [(?k, v)])"
    using wf new v(1) by (auto simp: index_wf_def)
  have 2: "\<forall>k\<in>fst ` set (thematic_index s @ [(?k, v)]).
            \<exists>c<Suc (theme_counter s). k = ''T'' @ zero_pad 3 c"
    using below less_Suc_eq by auto
  have 3: "\<forall>t\<in>snd ` set (thematic_index s @ [(?k, v)]).
            ti_sub_themes t = [] \<and> ti_parent_themes t = []"
    using empty v by auto
  show ?thesis unfolding idx add_theme_counter using 1 2 3 by blast
qed

lemma add_themes_fresh:
  assumes "index_wf (thematic_index s)"
    and "\<forall>k\<in>fst ` set (thematic_index s). \<exists>c<theme_counter s. k = ''T'' @ zero_pad 3 c"
    and "\<forall>t\<in>snd ` set (thematic_index s). ti_sub_themes t = [] \<and> ti_parent_themes t = []"
  shows "index_wf (thematic_index (foldl (add_theme enum t2v) s es)) \<and>
         (\<forall>t\<in>snd ` set (thematic_index (foldl (add_theme enum t2v) s es)).
            ti_sub_themes t = [] \<and> ti_parent_themes t = [])"
  using assms
proof (induction es arbitrary: s)
  case Nil
  then show ?case by simp
next
  case (Cons e es)
  from add_theme_fresh[OF Cons.prems, of enum t2v e]
  have "index_wf (thematic_index (add_theme enum t2v s e))"
    "\<forall>k\<in>fst ` set (thematic_index (add_theme enum t2v s e)).
            \<exists>c<theme_counter (add_theme enum t2v s e). k = ''T'' @ zero_pad 3 c"
    "\<forall>t\<in>snd ` set (thematic_index (add_theme enum t2v s e)).
            ti_sub_themes t = [] \<and> ti_parent_themes t = []"
    by blast+
  from Cons.IH[OF this] show ?case by simp
qed

lemma no_links_symmetric:
  "\<forall>t\<in>snd ` set idx. ti_sub_themes t = [] \<and> ti_parent_themes t = [] \<Longrightarrow> links_symmetric idx"
  by (simp add: links_symmetric_def)

lemma build_theme_relationships_symmetric:
  assumes "index_wf (thematic_index st)" and "links_symmetric (thematic_index st)"
  shows "index_wf (thematic_index (build_theme_relationships st)) \<and>
         links_symmetric (thematic_index (build_theme_relationships st))"
  by (rule build_theme_relationships_invariant[
        where P = "\<lambda>idx. index_wf idx \<and> links_symmetric idx"])
     (simp_all add: link_child_invariant assms)

text \<open>
  C7. The hierarchy pass keeps the parent-child links symmetric: if the index is a
  dictionary of themes stored under their own ids whose links are symmetric, they are
  symmetric afterwards. In particular, after the thematic indexer has run on a parser
  with an empty index, a theme A lists the id of a theme B among its sub-themes if and only
  if B lists the id of A among its parent themes.
\<close>

theorem hierarchy_links_symmetric:
  "(index_wf (thematic_index st) \<and> links_symmetric (thematic_index st) \<longrightarrow>
      links_symmetric (thematic_index (build_theme_relationships st))) \<and>
   (thematic_index st = [] \<longrightarrow>
      links_symmetric (thematic_index (build_thematic_network enum st)))"
proof (intro conjI impI)
  assume "index_wf (thematic_index st) \<and> links_symmetric (thematic_index st)"
  then show "links_symmetric (thematic_index (build_theme_relationships st))"
    using build_theme_relationships_symmetric by blast
next
  assume fresh: "thematic_index st = []"
  obtain t2n t2v where b: "build_thematic_network enum st =
     build_theme_relationships (foldl (add_theme enum t2v) st t2n)"
    using build_thematic_network_unfold by blast
  have "index_wf (thematic_index st)" by (simp add: fresh index_wf_def)
  from add_themes_fresh[OF this, of enum t2v t2n]
  have wf: "index_wf (thematic_index (foldl (add_theme enum t2v) st t2n))"
    and e: "\<forall>t\<in>snd ` set (thematic_index (foldl (add_theme enum t2v) st t2n)).
            ti_sub_themes t = [] \<and> ti_parent_themes t = []"
    by (simp_all add: fresh)
  from build_theme_relationships_symmetric[OF wf no_links_symmetric[OF e]]
  show "links_symmetric (thematic_index (build_thematic_network enum st))"
    unfolding b by simp
qed

theorem hierarchy_links_symmetric_witness:
  "thematic_index hierarchy_example = [] \<and>
   map (\<lambda>(k, t). (ti_theme_id t, ti_sub_themes t, ti_parent_themes t))
     (thematic_index (build_thematic_network remdups hierarchy_example)) =
     [(''T001'', [''T002''], []), (''T002'', [], [''T001''])] \<and>
   links_symmetric (thematic_index (build_thematic_network remdups hierarchy_example))"
proof -
  from hierarchy_links_symmetric[of hierarchy_example remdups] hierarchy_example_fresh
  have "links_symmetric (thematic_index (build_thematic_network remdups hierarchy_example))"
    by blast
  moreover have "map (\<lambda>(k, t). (ti_theme_id t, ti_sub_themes t, ti_parent_themes t))
     (thematic_index (build_thematic_network remdups hierarchy_example)) =
     [(''T001'', [''T002''], []), (''T002'', [], [''T001''])]"
    unfolding hierarchy_example_index by simp
  ultimately show ?thesis using hierarchy_example_fresh by blast
qed

section \<open>Reading plans\<close>

lemma day_step_fold:
  assumes "foldl day_step (days, cur) xs = (days', cur')"
    and "\<forall>d\<in>set days. length d \<le> 10" and "length cur \<le> 10"
  shows "concat days' @ cur' = concat days @ cur @ xs \<and>
         (\<forall>d\<in>set days'. length d \<le> 10) \<and> length cur' \<le> 10"
  using assms
proof (induction xs arbitrary: days cur)
  case Nil
  then show ?case by simp
next
  case (Cons x xs)
  show ?case
  proof (cases "10 \<le> length cur")
    case True
    then have step: "day_step (days, cur) x = (days @ [cur], [x])" by (simp add: day_step_def)
    have "foldl day_step (days @ [cur], [x]) xs = (days', cur')"
      using Cons.prems(1) step by simp
    from Cons.IH[OF this] Cons.prems(2,3) show ?thesis by simp
  next
    case False
    then have step: "day_step (days, cur) x = (days, cur @ [x])" by (simp add: day_step_def)
    have "foldl day_step (days, cur @ [x]) xs = (days', cur')"
      using Cons.prems(1) step by simp
    from Cons.IH[OF this] Cons.prems(2) False show ?thesis by simp
  qed
qed

lemma foldl_books_flat:
  "foldl (\<lambda>acc (book, book_verses). foldl day_step acc (take 20 book_verses)) acc by_book =
     foldl day_step acc (concat (map (\<lambda>(book, book_verses). take 20 book_verses) by_book))"
  by (induction by_book arbitrary: acc) (auto simp: case_prod_beta)

lemma daily_readings_props:
  "concat (daily_readings by_book) =
     concat (map (\<lambda>(book, book_verses). take 20 book_verses) by_book) \<and>
   (\<forall>d\<in>set (daily_readings by_book). length d \<le> 10)"
proof -
  let ?flat = "concat (map (\<lambda>(book, book_verses). take 20 book_verses) by_book)"
  obtain days cur where f: "foldl day_step ([], []) ?flat = (days, cur)"
    by (cases "foldl day_step ([], []) ?flat")
  from day_step_fold[OF f] have p: "concat days @ cur = ?flat"
    "\<forall>d\<in>set days. length d \<le> 10" "length cur \<le> 10" by simp_all
  have "daily_readings by_book = (if cur \<noteq> [] then days @ [cur] else days)"
    by (simp add: daily_readings_def foldl_books_flat f)
  then show ?thesis using p by auto
qed

lemma daily_readings_total:
  "sum_list (map length (daily_readings by_book)) =
     sum_list (map (\<lambda>(book, book_verses). min 20 (length book_verses)) by_book)"
proof -
  have "sum_list (map length (daily_readings by_book)) = length (concat (daily_readings by_book))"
    by (simp add: length_concat)
  also have "\<dots> = length (concat (map (\<lambda>(book, book_verses). take 20 book_verses) by_book))"
    using daily_readings_props[of by_book] by simp
  also have "\<dots> = sum_list (map (\<lambda>(book, book_verses). min 20 (length book_verses)) by_book)"
    by (induction by_book) (auto simp: min.commute)
  finally show ?thesis .
qed

text \<open>The groups: one entry for each book that occurs, holding the verse ids of that book.\<close>

lemma verses_by_book_fold:
  fixes d :: "(string \<times> string list) list"
  assumes "distinct (map fst d)"
  shows "distinct (map fst (foldl (\<lambda>d verse_id. (case map_of vs verse_id of
                             None \<Rightarrow> d
                           | Some verse \<Rightarrow> dd_extend d (bv_book verse) [verse_id])) d ids)) \<and>
         (\<forall>b. map_of (foldl (\<lambda>d verse_id. (case map_of vs verse_id of
                             None \<Rightarrow> d
                           | Some verse \<Rightarrow> dd_extend d (bv_book verse) [verse_id])) d ids) b =
            (if filter (\<lambda>verse_id. stored_book vs verse_id = Some b) ids = [] then map_of d b
             else Some ((case map_of d b of None \<Rightarrow> [] | Some ys \<Rightarrow> ys) @
                        filter (\<lambda>verse_id. stored_book vs verse_id = Some b) ids)))"
  using assms
proof (induction ids arbitrary: d)
  case Nil
  then show ?case by simp
next
  case (Cons i ids)
  show ?case
  proof (cases "map_of vs i")
    case None
    then have sb: "stored_book vs i = None" by (simp add: stored_book_def)
    from Cons.IH[OF Cons.prems] show ?thesis using None sb by simp
  next
    case (Some v)
    then have sb: "stored_book vs i = Some (bv_book v)" by (simp add: stored_book_def)
    let ?d1 = "dd_extend d (bv_book v) [i]"
    have d1: "distinct (map fst ?d1)"
      using Cons.prems by (simp add: dd_extend_def distinct_update)
    have m1: "\<And>b. map_of ?d1 b =
        (if b = bv_book v then Some ((case map_of d b of None \<Rightarrow> [] | Some ys \<Rightarrow> ys) @ [i])
         else map_of d b)"
      by (simp add: dd_extend_def update_conv')
    from Cons.IH[OF d1] show ?thesis
      using Some sb by (auto simp: m1)
  qed
qed

lemma verses_by_book_props:
  "distinct (map fst (verses_by_book vs ids)) \<and>
   (\<forall>b. map_of (verses_by_book vs ids) b =
      (if filter (\<lambda>verse_id. stored_book vs verse_id = Some b) ids = [] then None
       else Some (filter (\<lambda>verse_id. stored_book vs verse_id = Some b) ids)))"
  using verses_by_book_fold[of "[]" vs ids] by (simp add: verses_by_book_def)

lemma stored_books_set:
  "set (List.map_filter (stored_book vs) ids) =
     {b. filter (\<lambda>verse_id. stored_book vs verse_id = Some b) ids \<noteq> []}"
proof (intro set_eqI iffI)
  fix b assume "b \<in> set (List.map_filter (stored_book vs) ids)"
  then obtain i where "i \<in> set ids" "stored_book vs i = Some b"
    by (auto simp: map_filter_def)
  then show "b \<in> {b. filter (\<lambda>verse_id. stored_book vs verse_id = Some b) ids \<noteq> []}"
    by (auto simp: filter_empty_conv)
next
  fix b assume "b \<in> {b. filter (\<lambda>verse_id. stored_book vs verse_id = Some b) ids \<noteq> []}"
  then obtain i where i: "i \<in> set ids" "stored_book vs i = Some b"
    by (auto simp: filter_empty_conv)
  then have "b = the (stored_book vs i)" by simp
  with i show "b \<in> set (List.map_filter (stored_book vs) ids)"
    by (force simp: map_filter_def)
qed

lemma sum_list_groups:
  fixes g :: "(string \<times> string list) list"
  assumes "distinct (map fst g)"
  shows "sum_list (map (\<lambda>(b, xs). h xs) g) = (\<Sum>b\<in>set (map fst g). h (the (map_of g b)))"
proof -
  have "map (\<lambda>(b, xs). h xs) g = map (\<lambda>b. h (the (map_of g b))) (map fst g)"
    using assms by (induction g) (auto simp: image_iff)
  then show ?thesis
    using assms by (simp only: sum_list_distinct_conv_sum_set)
qed

lemma grouped_total:
  "sum_list (map (\<lambda>(book, book_verses). min 20 (length book_verses)) (verses_by_book vs ids)) =
     capped_store_count vs ids"
proof -
  let ?g = "verses_by_book vs ids"
  let ?F = "\<lambda>b. filter (\<lambda>verse_id. stored_book vs verse_id = Some b) ids"
  from verses_by_book_props[of vs ids]
  have d: "distinct (map fst ?g)"
    and m: "\<And>b. map_of ?g b = (if ?F b = [] then None else Some (?F b))" by simp_all
  have keys: "set (map fst ?g) = set (List.map_filter (stored_book vs) ids)"
  proof -
    have "set (map fst ?g) = {b. map_of ?g b \<noteq> None}"
      by (auto simp: map_of_eq_None_iff)
    also have "\<dots> = {b. ?F b \<noteq> []}" by (simp add: m)
    finally show ?thesis by (simp add: stored_books_set)
  qed
  have "sum_list (map (\<lambda>(book, book_verses). min 20 (length book_verses)) ?g) =
          (\<Sum>b\<in>set (map fst ?g). min 20 (length (the (map_of ?g b))))"
    by (rule sum_list_groups[OF d])
  also have "\<dots> = (\<Sum>b\<in>set (List.map_filter (stored_book vs) ids). min 20 (length (?F b)))"
    unfolding keys by (rule sum.cong) (auto simp: m stored_books_set)
  finally show ?thesis by (simp add: capped_store_count_def)
qed

lemma plan_days_props:
  "(\<forall>day\<in>set (daily_readings (verses_by_book vs ids)). length day \<le> 10) \<and>
   sum_list (map length (daily_readings (verses_by_book vs ids))) = capped_store_count vs ids"
  using daily_readings_props[of "verses_by_book vs ids"]
  by (simp add: daily_readings_total grouped_total)

lemma plan_for_theme_tables:
  "verses (plan_for_theme s theme_name) = verses s \<and>
   thematic_index (plan_for_theme s theme_name) = thematic_index s"
  by (simp add: plan_for_theme_def Let_def split: option.splits)

lemma plan_for_theme_plans:
  "reading_plans (plan_for_theme s theme_name) = reading_plans s \<or>
   (\<exists>k p. plan_ok (verses s) (thematic_index s) p \<and>
      reading_plans (plan_for_theme s theme_name) = AList.update k p (reading_plans s))"
proof (cases "find_theme theme_name (thematic_index s)")
  case None
  then show ?thesis by (simp add: plan_for_theme_def)
next
  case (Some e)
  obtain theme_id t where e: "e = (theme_id, t)" by (cases e)
  let ?days = "daily_readings (verses_by_book (verses s) (ti_verse_ids t))"
  let ?k = "''P'' @ zero_pad 3 (plan_counter s)"
  let ?p = "\<lparr>rp_plan_id = ?k, rp_name = ''Scofield Study: '' @ theme_name,
             rp_description = ''Study '' @ theme_name @ '' through key Scofield references'',
             rp_days = ?days, rp_theme = theme_name,
             rp_estimated_minutes = length ?days * 15,
             rp_tags = [theme_name, ''Scofield'', ''Study'']\<rparr>"
  show ?thesis
  proof (cases "total_references t > 10 \<and> ?days \<noteq> []")
    case False
    then show ?thesis using Some e by (auto simp: plan_for_theme_def Let_def)
  next
    case True
    have ok: "plan_ok (verses s) (thematic_index s) ?p"
      using plan_days_props[of "verses s" "ti_verse_ids t"] Some e
      by (simp add: plan_ok_def list_all_iff)
    have "reading_plans (plan_for_theme s theme_name) = AList.update ?k ?p (reading_plans s)"
      using True Some e by (simp add: plan_for_theme_def Let_def)
    with ok show ?thesis by blast
  qed
qed

lemma plan_for_theme_ok:
  assumes "\<forall>p\<in>snd ` set (reading_plans s). plan_ok (verses s) (thematic_index s) p"
  shows "\<forall>p\<in>snd ` set (reading_plans (plan_for_theme s theme_name)).
           plan_ok (verses (plan_for_theme s theme_name))
             (thematic_index (plan_for_theme s theme_name)) p"
proof -
  from plan_for_theme_plans[of s theme_name]
  have "\<forall>p\<in>snd ` set (reading_plans (plan_for_theme s theme_name)).
           plan_ok (verses s) (thematic_index s) p"
  proof
    assume "reading_plans (plan_for_theme s theme_name) = reading_plans s"
    then show ?thesis using assms by simp
  next
    assume "\<exists>k p. plan_ok (verses s) (thematic_index s) p \<and>
      reading_plans (plan_for_theme s theme_name) = AList.update k p (reading_plans s)"
    then obtain k p where p: "plan_ok (verses s) (thematic_index s) p"
      and eq: "reading_plans (plan_for_theme s theme_name) = AList.update k p (reading_plans s)"
      by blast
    show ?thesis unfolding eq using snd_set_update[of k p "reading_plans s"] p assms by blast
  qed
  then show ?thesis by (simp add: plan_for_theme_tables)
qed

lemma generate_reading_plans_ok:
  assumes "\<forall>p\<in>snd ` set (reading_plans s). plan_ok (verses s) (thematic_index s) p"
  shows "verses (foldl plan_for_theme s names) = verses s \<and>
         thematic_index (foldl plan_for_theme s names) = thematic_index s \<and>
         (\<forall>p\<in>snd ` set (reading_plans (foldl plan_for_theme s names)).
            plan_ok (verses s) (thematic_index s) p)"
  using assms
proof (induction names arbitrary: s)
  case Nil
  then show ?case by simp
next
  case (Cons n names)
  from Cons.IH[OF plan_for_theme_ok[OF Cons.prems, of n]]
  show ?case by (simp add: plan_for_theme_tables)
qed

text \<open>
  C5, as amended. When the reading-plan generator runs on a parser that holds no plan yet,
  every plan it leaves has days of at most 10 verse ids each, and the number of verse ids
  over all its days equals the number of verse ids of the plan's theme that are keys of the
  verse table, each book counted up to 20 times.
\<close>

theorem reading_plan_days_bounded:
  assumes "reading_plans st = []"
  shows "\<forall>p\<in>snd ` set (reading_plans (generate_reading_plans st)).
           (\<forall>day\<in>set (rp_days p). length day \<le> 10) \<and>
           (\<exists>theme_id t. find_theme (rp_theme p) (thematic_index st) = Some (theme_id, t) \<and>
              sum_list (map length (rp_days p)) =
                capped_store_count (verses st) (ti_verse_ids t))"
proof
  fix p assume p: "p \<in> snd ` set (reading_plans (generate_reading_plans st))"
  have "\<forall>p\<in>snd ` set (reading_plans st). plan_ok (verses st) (thematic_index st) p"
    by (simp add: assms)
  from generate_reading_plans_ok[OF this, of major_themes] p
  have "plan_ok (verses st) (thematic_index st) p"
    unfolding generate_reading_plans_def by blast
  then show "(\<forall>day\<in>set (rp_days p). length day \<le> 10) \<and>
           (\<exists>theme_id t. find_theme (rp_theme p) (thematic_index st) = Some (theme_id, t) \<and>
              sum_list (map length (rp_days p)) =
                capped_store_count (verses st) (ti_verse_ids t))"
    by (auto simp: plan_ok_def list_all_iff split: option.splits)
qed

lemma capping_example_days:
  "map (rp_days \<circ> snd) (reading_plans (generate_reading_plans capping_example)) =
     [[[''GEN.1.1'', ''GEN.1.2'', ''GEN.1.3'', ''GEN.1.4'', ''GEN.1.5'',
        ''GEN.1.6'', ''GEN.1.7'', ''GEN.1.8'', ''GEN.1.9'', ''GEN.1.10''],
       [''GEN.1.11'', ''GEN.1.12'', ''GEN.1.13'', ''GEN.1.14'', ''GEN.1.15'',
        ''GEN.1.16'', ''GEN.1.17'', ''GEN.1.18'', ''GEN.1.19'', ''GEN.1.20'']]]"
  by code_simp

lemma capping_example_count:
  "capped_store_count (verses capping_example)
     (map (fst \<circ> genesis_1) [1..25] @ [''EXO.1.1'']) = 20"
  by code_simp

theorem reading_plan_days_bounded_witness:
  "reading_plans capping_example = [] \<and>
   map (rp_days \<circ> snd) (reading_plans (generate_reading_plans capping_example)) =
     [[[''GEN.1.1'', ''GEN.1.2'', ''GEN.1.3'', ''GEN.1.4'', ''GEN.1.5'',
        ''GEN.1.6'', ''GEN.1.7'', ''GEN.1.8'', ''GEN.1.9'', ''GEN.1.10''],
       [''GEN.1.11'', ''GEN.1.12'', ''GEN.1.13'', ''GEN.1.14'', ''GEN.1.15'',
        ''GEN.1.16'', ''GEN.1.17'', ''GEN.1.18'', ''GEN.1.19'', ''GEN.1.20'']]] \<and>
   capped_store_count (verses capping_example)
     (map (fst \<circ> genesis_1) [1..25] @ [''EXO.1.1'']) = 20 \<and>
   list_all (\<lambda>p. list_all (\<lambda>day. length day \<le> 10) (rp_days p))
     (map snd (reading_plans (generate_reading_plans capping_example)))"
proof -
  have h: "reading_plans capping_example = []"
    by (simp add: capping_example_def init_parser_def)
  from reading_plan_days_bounded[OF h]
  have "list_all (\<lambda>p. list_all (\<lambda>day. length day \<le> 10) (rp_days p))
     (map snd (reading_plans (generate_reading_plans capping_example)))"
    unfolding list_all_iff by simp
  then show ?thesis using h capping_example_days capping_example_count by blast
qed

lemma plan_example_days:
  "map (rp_days \<circ> snd) (reading_plans (generate_reading_plans plan_example)) = [[[''GEN.1.1'']]]"
  by code_simp

lemma plan_example_theme:
  "find_theme ''Salvation'' (thematic_index plan_example) = Some (''T001'', salvation_theme)"
  by (simp add: plan_example_def find_theme_def salvation_theme_def)

lemma plan_example_spec_count: "spec_capped_count (ti_verse_ids salvation_theme) = 2"
  by code_simp

text \<open>
  C5, as stated, fails: the theme Salvation has the verse ids GEN.1.1 and GEN.1.2, two
  after the cap, and the verse table holds only GEN.1.1; the plan has the one day
  [GEN.1.1].
\<close>

theorem reading_plan_skips_missing_verses:
  "find_theme ''Salvation'' (thematic_index plan_example) = Some (''T001'', salvation_theme) \<and>
   spec_capped_count (ti_verse_ids salvation_theme) = 2 \<and>
   map (rp_theme \<circ> snd) (reading_plans (generate_reading_plans plan_example)) = [''Salvation''] \<and>
   map (rp_days \<circ> snd) (reading_plans (generate_reading_plans plan_example)) = [[[''GEN.1.1'']]]"
proof -
  have "map (rp_theme \<circ> snd) (reading_plans (generate_reading_plans plan_example)) = [''Salvation'']"
    by code_simp
  then show ?thesis
    using plan_example_theme plan_example_spec_count plan_example_days by blast
qed

end
